theory Spec2Isabelle
  imports Main "HOL-Library.Multiset" "HOL-Library.Word" "HOL-Library.Product_Lexorder"
begin

section \<open>Protocol constants\<close>

text \<open>
  The source reads its wire constants from \<^verbatim>\<open>constants.json\<close>, which is not among the
  source files. The values below are the ones the specification lists in its section on
  wire compatibility.
\<close>

definition area_DB :: int where
  \<comment> \<open>Modelled from the spec: \<^verbatim>\<open>constants.proto.area.DB\<close> of the missing constants.json ("area DB=0x84").\<close>
  "area_DB = 0x84"

definition area_INPUTS :: int where
  \<comment> \<open>Modelled from the spec: \<^verbatim>\<open>constants.proto.area.INPUTS\<close> of the missing constants.json ("Inputs=0x81").\<close>
  "area_INPUTS = 0x81"

definition area_OUTPUTS :: int where
  \<comment> \<open>Modelled from the spec: \<^verbatim>\<open>constants.proto.area.OUTPUTS\<close> of the missing constants.json ("Outputs=0x82").\<close>
  "area_OUTPUTS = 0x82"

definition area_FLAGS :: int where
  \<comment> \<open>Modelled from the spec: \<^verbatim>\<open>constants.proto.area.FLAGS\<close> of the missing constants.json ("Flags=0x83").\<close>
  "area_FLAGS = 0x83"

definition transport_BIT :: int where
  \<comment> \<open>Modelled from the spec: \<^verbatim>\<open>constants.proto.transport.BIT\<close> of the missing constants.json ("transport BIT=0x01").\<close>
  "transport_BIT = 0x01"

definition transport_BYTE :: int where
  \<comment> \<open>Modelled from the spec: \<^verbatim>\<open>constants.proto.transport.BYTE\<close> of the missing constants.json ("BYTE=0x02").\<close>
  "transport_BYTE = 0x02"

definition retval_DATA_OK :: int where
  \<comment> \<open>Modelled from the spec: \<^verbatim>\<open>constants.proto.retval.DATA_OK\<close> of the missing constants.json ("return code DATA_OK=0xFF").\<close>
  "retval_DATA_OK = 0xFF"

section \<open>Errors\<close>

text \<open>
  A \<^verbatim>\<open>NodeS7Error\<close> carries a kind (a tag, or the numeric return code of the PLC) and an
  optional context object; the other throws of the source are plain JavaScript errors.
\<close>

datatype err_code =
    ERR_ILLEGAL_STATE
  | ERR_INVALID_ARGUMENT
  | ERR_NOT_CONNECTED
  | ERR_ITEM_TOO_BIG
  | ERR_UNEXPECTED_RESPONSE
  | ERR_PARSE_ADDR
  | RetCode int

datatype err_info =
    NoInfo
  | PartInfo int "int option" int int
  | TagInfo string

datatype error =
    NodeS7Error err_code err_info
  | AlreadyDestroyed
  | OffsetsNotCalculated string
  | JsTypeError

section \<open>Items, parts and the item group\<close>

type_synonym byte = nat

text \<open>
  The fields of an \<^verbatim>\<open>S7Item\<close> that the item group and the endpoint read. The class
  itself (\<^verbatim>\<open>s7item.js\<close>) is not among the source files: an item is a record of what its
  getters return, and its methods are taken as parameters (\<open>S7Item_methods\<close> below).
  \<open>dbNumber\<close> is \<open>None\<close> where the JavaScript value is \<^verbatim>\<open>undefined\<close>.
\<close>

record 'v S7Item =
  name :: string
  addrtype :: string
  areaCode :: int
  dbNumber :: "int option"
  offset :: int
  bitOffset :: int
  byteLength :: int
  byteLengthWithFill :: int
  readTransportCode :: int
  writeTransportCode :: int
  buffer :: "byte list"
  item_value :: 'v

record CopyOffsets =
  sourceOffset :: int
  destOffset :: int
  byteCount :: int

text \<open>
  What \<^verbatim>\<open>readVars\<close> reads of a request part; a part of a read packet extends it by the
  items it serves and their copy descriptors, a write request by its payload.
\<close>

record VarRequest =
  area :: int
  db :: "int option"
  transport :: int
  address :: int
  length' :: int

record 'v ReadPart = VarRequest +
  items :: "'v S7Item list"
  offsets :: "CopyOffsets list"

record WriteRequest = VarRequest +
  dataTransport :: int
  data :: "byte list"

text \<open>
  The methods of \<^verbatim>\<open>S7Item\<close> that the group calls; a method that may throw returns
  a sum.

  Modelled from the spec: the class \<^verbatim>\<open>S7Item\<close> (s7item.js) is missing. Its
  \<^verbatim>\<open>copyFromBuffer(response, {sourceOffset, destOffset, byteCount})\<close> takes a copy
  descriptor and reads its three fields, so it is a function of a descriptor; called
  with \<^verbatim>\<open>undefined\<close> in its place it throws a \<^verbatim>\<open>TypeError\<close>, which is a branch of the
  caller \<open>scatter_part\<close>.
\<close>

record 'v S7Item_methods =
  new_S7Item :: "string \<Rightarrow> string \<Rightarrow> error + 'v S7Item"
  getCopyBufferOffsets :: "'v S7Item \<Rightarrow> int \<Rightarrow> int \<Rightarrow> CopyOffsets option"
  copyFromBuffer :: "'v S7Item \<Rightarrow> byte list \<Rightarrow> CopyOffsets \<Rightarrow> 'v S7Item"
  updateValueFromBuffer :: "'v S7Item \<Rightarrow> 'v S7Item"
  getWriteBuffer :: "'v S7Item \<Rightarrow> 'v \<Rightarrow> error + byte list"

datatype conn_state = CONN_DISCONNECTED | CONN_CONNECTING | CONN_CONNECTED | CONN_DISCONNECTING

record S7Endpoint =
  connectionState :: conn_state
  pduSize :: "int option"

definition isConnected :: "S7Endpoint \<Rightarrow> bool" where
  "isConnected ep = (connectionState ep = CONN_CONNECTED)"

text \<open>
  The group holds a reference to its endpoint and reads the endpoint's state through it;
  the model keeps that state inside the group's (\<open>None\<close> once \<^verbatim>\<open>destroy\<close> has set the
  reference to \<^verbatim>\<open>null\<close>). The item map is a JavaScript \<^verbatim>\<open>Map\<close>, which iterates in
  insertion order: an association list with distinct keys.
\<close>

record 'v S7ItemGroup =
  endpoint :: "S7Endpoint option"
  skipOptimization :: bool
  optimizationGap :: int
  group_items :: "(string \<times> 'v S7Item) list"
  readPackets :: "'v ReadPart list list option"
  translationCallback :: "string \<Rightarrow> string"
  lastRequestTime :: "nat option"

section \<open>The sort of the planner\<close>

text \<open>
  JavaScript's \<^verbatim>\<open><\<close> and \<^verbatim>\<open>>\<close> on values that may be \<^verbatim>\<open>undefined\<close>: a comparison with
  \<^verbatim>\<open>undefined\<close> is false.
\<close>

definition js_lt :: "int option \<Rightarrow> int option \<Rightarrow> bool" where
  "js_lt x y = (case x of None \<Rightarrow> False | Some a \<Rightarrow> (case y of None \<Rightarrow> False | Some b \<Rightarrow> a < b))"

definition js_gt :: "int option \<Rightarrow> int option \<Rightarrow> bool" where
  "js_gt x y = js_lt y x"

text \<open>
  \<^verbatim>\<open>itemListSorter\<close>; where the source falls off its end and returns \<^verbatim>\<open>undefined\<close> the
  model returns 0, which is what \<^verbatim>\<open>Array.prototype.sort\<close> makes of it.
\<close>

definition itemListSorter :: "'v S7Item \<Rightarrow> 'v S7Item \<Rightarrow> int" where
  "itemListSorter a b =
    (if areaCode a < areaCode b then -1
     else if areaCode a > areaCode b then 1
     else if addrtype a = ''DB'' \<and> js_lt (dbNumber a) (dbNumber b) then -1
     else if addrtype a = ''DB'' \<and> js_gt (dbNumber a) (dbNumber b) then 1
     else if offset a < offset b then -1
     else if offset a > offset b then 1
     else if bitOffset a < bitOffset b then -1
     else if bitOffset a > bitOffset b then 1
     else if byteLength a > byteLength b then -1
     else if byteLength a < byteLength b then 1
     else 0)"

text \<open>
  \<^verbatim>\<open>Array.prototype.sort\<close> with a comparison function: a stable sort (ECMAScript 2019),
  here as an insertion sort that puts an element before the first one it does not
  compare greater than.
\<close>

fun sort_insert :: "('a \<Rightarrow> 'a \<Rightarrow> int) \<Rightarrow> 'a \<Rightarrow> 'a list \<Rightarrow> 'a list" where
  "sort_insert cmp x [] = [x]"
| "sort_insert cmp x (y # ys) = (if cmp x y \<le> 0 then x # y # ys else y # sort_insert cmp x ys)"

definition array_sort :: "('a \<Rightarrow> 'a \<Rightarrow> int) \<Rightarrow> 'a list \<Rightarrow> 'a list" where
  "array_sort cmp xs = foldr (sort_insert cmp) xs []"

section \<open>The planner\<close>

text \<open>
  \<^verbatim>\<open>_isOptimizable(a, b)\<close>; \<open>a\<close> is \<open>None\<close> while \<^verbatim>\<open>lastItem\<close> is still undefined.
\<close>

definition isOptimizable :: "'v S7ItemGroup \<Rightarrow> 'v S7Item option \<Rightarrow> 'v S7Item \<Rightarrow> bool" where
  "isOptimizable g a' b =
    (\<not> skipOptimization g \<and>
     (case a' of
        None \<Rightarrow> False
      | Some a \<Rightarrow>
          areaCode a = areaCode b
          \<and> (areaCode b = area_DB \<or> areaCode b = area_INPUTS
               \<or> areaCode b = area_OUTPUTS \<or> areaCode b = area_FLAGS)
          \<and> dbNumber a = dbNumber b
          \<and> abs (offset b - offset a - byteLength a) < optimizationGap g))"

definition reqHeaderSize :: int where "reqHeaderSize = 12"
definition resHeaderSize :: int where "resHeaderSize = 14"
definition reqPartSize :: int where "reqPartSize = 12"
definition resPartSize :: int where "resPartSize = 4"

text \<open>
  The working variables of the packing loop. \<^verbatim>\<open>packet\<close> and \<^verbatim>\<open>part\<close> are references in
  the source: when set, \<^verbatim>\<open>packet\<close> is the array last pushed to \<^verbatim>\<open>this._readPackets\<close> and
  \<^verbatim>\<open>part\<close> the object last pushed to \<^verbatim>\<open>packet\<close>, and both are changed in place. The model
  keeps the list of packets and two flags saying whether the references are set; a
  change through \<^verbatim>\<open>part\<close> is a change of the last part of the last packet.
  \<^verbatim>\<open>pktReqLength\<close> and \<^verbatim>\<open>pktResLength\<close> are \<^verbatim>\<open>undefined\<close> until the first packet is
  opened and are not used before; they start at 0 here.
\<close>

record 'v plan_state =
  packets :: "'v ReadPart list list"
  packet :: bool
  part :: bool
  pktReqLength :: int
  pktResLength :: int
  lastItem :: "'v S7Item option"

fun map_last :: "('a \<Rightarrow> 'a) \<Rightarrow> 'a list \<Rightarrow> 'a list" where
  "map_last f [] = []"
| "map_last f [x] = [f x]"
| "map_last f (x # y # ys) = x # map_last f (y # ys)"

definition cur_part :: "'v plan_state \<Rightarrow> 'v ReadPart" where
  "cur_part st = last (last (packets st))"

definition new_part :: "'v S7Item \<Rightarrow> int \<Rightarrow> int \<Rightarrow> 'v ReadPart" where
  "new_part item partOffset partLength =
    \<lparr> area = areaCode item, db = dbNumber item, transport = readTransportCode item,
      address = partOffset, length' = partLength, items = [item], offsets = [] \<rparr>"

text \<open>
  The three ways the loop body places (a piece of) an item: it grows the current part by
  \<open>n\<close> bytes and adds the item to the part's items; it pushes a new part to the current
  packet; it pushes a new packet with one part.
\<close>

definition grow_part :: "'v S7Item \<Rightarrow> int \<Rightarrow> 'v plan_state \<Rightarrow> 'v plan_state" where
  "grow_part item n st =
    st\<lparr> pktResLength := pktResLength st + n,
        packets := map_last (map_last (\<lambda>q. q\<lparr> length' := length' q + n,
                                             items := items q @ [item] \<rparr>)) (packets st) \<rparr>"

definition open_part :: "'v S7Item \<Rightarrow> int \<Rightarrow> int \<Rightarrow> 'v plan_state \<Rightarrow> 'v plan_state" where
  "open_part item partOffset partLength st =
    st\<lparr> packets := map_last (\<lambda>pk. pk @ [new_part item partOffset partLength]) (packets st),
        part := True,
        pktReqLength := pktReqLength st + reqPartSize,
        pktResLength := pktResLength st + resPartSize + partLength \<rparr>"

definition open_packet :: "'v S7Item \<Rightarrow> int \<Rightarrow> int \<Rightarrow> 'v plan_state \<Rightarrow> 'v plan_state" where
  "open_packet item partOffset partLength st =
    st\<lparr> packets := packets st @ [[new_part item partOffset partLength]],
        packet := True,
        part := True,
        pktReqLength := reqHeaderSize + reqPartSize,
        pktResLength := resHeaderSize + resPartSize + partLength \<rparr>"

text \<open>
  One pass through the body of the \<^verbatim>\<open>while (!itemComplete)\<close> loop, up to the test that
  ends it: the result is \<^verbatim>\<open>itemComplete\<close>, \<^verbatim>\<open>itemLength\<close>, \<^verbatim>\<open>itemOffset\<close> and the
  working variables.
\<close>

definition place_item ::
  "int \<Rightarrow> 'v S7ItemGroup \<Rightarrow> 'v S7Item \<Rightarrow> int \<Rightarrow> int \<Rightarrow> 'v plan_state
    \<Rightarrow> bool \<times> int \<times> int \<times> 'v plan_state" where
  "place_item maxPayloadSize g item itemLength itemOffset st =
    (let remainingLength = maxPayloadSize - pktResLength st;
         minRequiredLength = min itemLength (optimizationGap g)
     in
     if packet st \<and> part st
        \<and> isOptimizable g (lastItem st) item
        \<and> pktResLength st + (itemOffset + minRequiredLength)
             - (address (cur_part st) + length' (cur_part st)) \<le> maxPayloadSize
     then
       (let p = cur_part st;
            addedLength = max (length' p) ((itemOffset - address p) + itemLength) - length' p
        in
        if addedLength \<le> remainingLength then
          (True, itemLength, itemOffset, grow_part item addedLength st)
        else
          (let consumedItemLength = (length' p + remainingLength) - (itemOffset - address p)
           in (False, itemLength - consumedItemLength, itemOffset + consumedItemLength,
               grow_part item remainingLength st)))
     else if packet st
        \<and> pktReqLength st + reqPartSize \<le> maxPayloadSize
        \<and> pktResLength st + resPartSize + minRequiredLength \<le> maxPayloadSize
     then
       (if pktResLength st + resPartSize + itemLength \<le> maxPayloadSize then
          (True, itemLength, itemOffset, open_part item itemOffset itemLength st)
        else
          (let consumedItemLength = maxPayloadSize - pktResLength st - resPartSize
           in (False, itemLength - consumedItemLength, itemOffset + consumedItemLength,
               open_part item itemOffset consumedItemLength st)))
     else
       (if resHeaderSize + resPartSize + itemLength \<le> maxPayloadSize then
          (True, itemLength, itemOffset, open_packet item itemOffset itemLength st)
        else
          (let consumedItemLength = maxPayloadSize - resHeaderSize - resPartSize
           in (False, itemLength - consumedItemLength, itemOffset + consumedItemLength,
               open_packet item itemOffset consumedItemLength st))))"

text \<open>
  The \<^verbatim>\<open>while (!itemComplete)\<close> loop for one item. Nothing bounds its passes (with a small
  pdu size a pass can consume nothing of the item), so it is a partial function: \<open>None\<close>
  is the loop that never ends.
\<close>

partial_function (option) item_loop ::
  "int \<Rightarrow> 'v S7ItemGroup \<Rightarrow> 'v S7Item \<Rightarrow> int \<Rightarrow> int \<Rightarrow> 'v plan_state \<Rightarrow> 'v plan_state option" where
  "item_loop maxPayloadSize g item itemLength itemOffset st =
    (case place_item maxPayloadSize g item itemLength itemOffset st of
       (itemComplete, itemLength', itemOffset', st') \<Rightarrow>
         if itemComplete then Some st'
         else item_loop maxPayloadSize g item itemLength' itemOffset'
                (st'\<lparr> packet := False, part := False \<rparr>))"

declare item_loop.simps [code]

text \<open>The \<^verbatim>\<open>for (const item of items)\<close> loop around it.\<close>

fun items_loop ::
  "int \<Rightarrow> 'v S7ItemGroup \<Rightarrow> 'v S7Item list \<Rightarrow> 'v plan_state \<Rightarrow> 'v plan_state option" where
  "items_loop maxPayloadSize g [] st = Some st"
| "items_loop maxPayloadSize g (item # rest) st =
    (case item_loop maxPayloadSize g item (byteLength item) (offset item) st of
       None \<Rightarrow> None
     | Some st' \<Rightarrow> items_loop maxPayloadSize g rest (st'\<lparr> lastItem := Some item \<rparr>))"

text \<open>
  The second loop of \<^verbatim>\<open>_prepareReadPackets\<close>: the copy descriptors of every item of every
  part, in order. \<^verbatim>\<open>part.offsets[k] = offset\<close> writes an array in place; \<open>k\<close> is never
  beyond its length. The loop throws at the first item without a descriptor and leaves
  the descriptors computed so far in place.
\<close>

definition array_set :: "'a list \<Rightarrow> nat \<Rightarrow> 'a \<Rightarrow> 'a list" where
  "array_set xs k v = (if k < length xs then xs[k := v] else xs @ [v])"

fun part_offsets ::
  "'v S7Item_methods \<Rightarrow> 'v ReadPart \<Rightarrow> 'v S7Item list \<Rightarrow> nat \<Rightarrow> error option \<times> 'v ReadPart" where
  "part_offsets M p [] k = (None, p)"
| "part_offsets M p (item # rest) k =
    (case getCopyBufferOffsets M item (address p) (length' p) of
       None \<Rightarrow> (Some (OffsetsNotCalculated (name item)), p)
     | Some off \<Rightarrow> part_offsets M (p\<lparr> offsets := array_set (offsets p) k off \<rparr>) rest (Suc k))"

fun packet_offsets ::
  "'v S7Item_methods \<Rightarrow> 'v ReadPart list \<Rightarrow> error option \<times> 'v ReadPart list" where
  "packet_offsets M [] = (None, [])"
| "packet_offsets M (p # ps) =
    (case part_offsets M p (items p) 0 of
       (Some e, p') \<Rightarrow> (Some e, p' # ps)
     | (None, p') \<Rightarrow> (case packet_offsets M ps of (e, ps') \<Rightarrow> (e, p' # ps')))"

fun plan_offsets ::
  "'v S7Item_methods \<Rightarrow> 'v ReadPart list list \<Rightarrow> error option \<times> 'v ReadPart list list" where
  "plan_offsets M [] = (None, [])"
| "plan_offsets M (pk # pks) =
    (case packet_offsets M pk of
       (Some e, pk') \<Rightarrow> (Some e, pk' # pks)
     | (None, pk') \<Rightarrow> (case plan_offsets M pks of (e, pks') \<Rightarrow> (e, pk' # pks')))"

definition init_plan_state :: "'v plan_state" where
  "init_plan_state =
    \<lparr> packets = [], packet = False, part = False, pktReqLength = 0, pktResLength = 0,
      lastItem = None \<rparr>"

text \<open>
  \<^verbatim>\<open>_prepareReadPackets\<close>. The result is \<open>None\<close> when the packing loop never ends; otherwise
  the error thrown (if any) and the group as the call leaves it. The plan is built in
  \<^verbatim>\<open>this._readPackets\<close> itself, so a throw from the second loop leaves the plan built so
  far in the cache. A pdu size of \<^verbatim>\<open>null\<close> or 0 is falsy.
\<close>

definition prepareReadPackets ::
  "'v S7Item_methods \<Rightarrow> 'v S7ItemGroup \<Rightarrow> (error option \<times> 'v S7ItemGroup) option" where
  "prepareReadPackets M g =
    (case endpoint g of
       None \<Rightarrow> Some (Some JsTypeError, g)
     | Some ep \<Rightarrow>
        (case pduSize ep of
           None \<Rightarrow> Some (Some (NodeS7Error ERR_ILLEGAL_STATE NoInfo), g)
         | Some pdu \<Rightarrow>
            if pdu = 0 then Some (Some (NodeS7Error ERR_ILLEGAL_STATE NoInfo), g)
            else if map snd (group_items g) = [] then Some (None, g\<lparr> readPackets := Some [] \<rparr>)
            else
              (case items_loop (pdu - 18) g
                      (array_sort itemListSorter (map snd (group_items g))) init_plan_state of
                 None \<Rightarrow> None
               | Some st \<Rightarrow>
                   (case plan_offsets M (packets st) of
                      (e, pks) \<Rightarrow> Some (e, g\<lparr> readPackets := Some pks \<rparr>)))))"

definition invalidateReadPackets :: "'v S7ItemGroup \<Rightarrow> 'v S7ItemGroup" where
  "invalidateReadPackets g = g\<lparr> readPackets := None \<rparr>"

section \<open>The item map\<close>

text \<open>
  \<^verbatim>\<open>Map.prototype.set\<close> keeps the place of a key that is already there and appends a new
  one; \<^verbatim>\<open>delete\<close> removes the key; \<^verbatim>\<open>get\<close> is \<^verbatim>\<open>undefined\<close> for a missing key.
\<close>

fun map_set :: "(string \<times> 'a) list \<Rightarrow> string \<Rightarrow> 'a \<Rightarrow> (string \<times> 'a) list" where
  "map_set [] k v = [(k, v)]"
| "map_set ((k', v') # m) k v = (if k' = k then (k, v) # m else (k', v') # map_set m k v)"

definition map_delete :: "(string \<times> 'a) list \<Rightarrow> string \<Rightarrow> (string \<times> 'a) list" where
  "map_delete m k = filter (\<lambda>kv. fst kv \<noteq> k) m"

definition map_get :: "(string \<times> 'a) list \<Rightarrow> string \<Rightarrow> 'a option" where
  "map_get m k = map_of m k"

section \<open>Construction, events and the item set\<close>

text \<open>
  The constructor: \<^verbatim>\<open>opts.optimizationGap || 5\<close> replaces a missing or zero gap by 5.
\<close>

definition new_S7ItemGroup :: "S7Endpoint \<Rightarrow> bool \<Rightarrow> int option \<Rightarrow> 'v S7ItemGroup" where
  "new_S7ItemGroup s7endpoint skip gap =
    \<lparr> endpoint = Some s7endpoint,
      skipOptimization = skip,
      optimizationGap = (case gap of None \<Rightarrow> 5 | Some n \<Rightarrow> if n = 0 then 5 else n),
      group_items = [],
      readPackets = None,
      translationCallback = (\<lambda>tag. tag),
      lastRequestTime = None \<rparr>"

definition destroy :: "'v S7ItemGroup \<Rightarrow> 'v S7ItemGroup" where
  "destroy g = g\<lparr> endpoint := None, readPackets := None, group_items := [] \<rparr>"

text \<open>
  \<^verbatim>\<open>S7Endpoint._onConnectionConnected\<close>, seen from a group that listens: the endpoint emits
  \<^verbatim>\<open>pdu-size\<close> when the size of the new connection differs from the one it holds, the
  group's listener invalidates the plan, and the endpoint then stores the new size and
  is connected. A destroyed group has removed its listener.
\<close>

definition onConnectionConnected :: "int option \<Rightarrow> 'v S7ItemGroup \<Rightarrow> 'v S7ItemGroup" where
  "onConnectionConnected newSize g =
    (case endpoint g of
       None \<Rightarrow> g
     | Some ep \<Rightarrow>
        (if pduSize ep \<noteq> newSize then invalidateReadPackets g else g)
          \<lparr> endpoint := Some (ep\<lparr> pduSize := newSize, connectionState := CONN_CONNECTED \<rparr>) \<rparr>)"

text \<open>The \<^verbatim>\<open>pdu-size\<close> listener the constructor registers.\<close>

definition on_pdu_size :: "'v S7ItemGroup \<Rightarrow> 'v S7ItemGroup" where
  "on_pdu_size g = invalidateReadPackets g"

datatype 'v tag = TagString string | TagItem "'v S7Item" | TagOther

datatype 'a one_or_array = One 'a | Array "'a list"

text \<open>
  \<^verbatim>\<open>addItems\<close>: the loop over the tags returns the error thrown, if any, and the item map
  as the loop leaves it.
\<close>

fun addItems_loop ::
  "'v S7Item_methods \<Rightarrow> 'v S7ItemGroup \<Rightarrow> 'v tag list \<Rightarrow> error option \<times> 'v S7ItemGroup" where
  "addItems_loop M g [] = (None, g)"
| "addItems_loop M g (t # tagsArr) =
    (case t of
       TagItem item \<Rightarrow>
         addItems_loop M (g\<lparr> group_items := map_set (group_items g) (name item) item \<rparr>) tagsArr
     | TagString s \<Rightarrow>
         (case new_S7Item M s (translationCallback g s) of
            Inl e \<Rightarrow> (Some e, g)
          | Inr item \<Rightarrow>
              addItems_loop M (g\<lparr> group_items := map_set (group_items g) s item \<rparr>) tagsArr)
     | TagOther \<Rightarrow> (Some (NodeS7Error ERR_INVALID_ARGUMENT NoInfo), g))"

definition addItems ::
  "'v S7Item_methods \<Rightarrow> 'v tag one_or_array \<Rightarrow> 'v S7ItemGroup \<Rightarrow> error option \<times> 'v S7ItemGroup" where
  "addItems M tags g =
    (let tagsArr = (case tags of Array ts \<Rightarrow> ts | One t \<Rightarrow> [t]) in
     case addItems_loop M g tagsArr of
       (Some e, g') \<Rightarrow> (Some e, g')
     | (None, g') \<Rightarrow> (None, invalidateReadPackets g'))"

text \<open>
  \<^verbatim>\<open>removeItems\<close>: a falsy argument (none, or the empty string) clears the map.
\<close>

datatype remove_arg = RemoveAll | RemoveOne string | RemoveArray "string list"

definition removeItems :: "remove_arg \<Rightarrow> 'v S7ItemGroup \<Rightarrow> 'v S7ItemGroup" where
  "removeItems tags g =
    invalidateReadPackets
      (case tags of
         RemoveAll \<Rightarrow> g\<lparr> group_items := [] \<rparr>
       | RemoveOne t \<Rightarrow>
           if t = [] then g\<lparr> group_items := [] \<rparr>
           else g\<lparr> group_items := map_delete (group_items g) t \<rparr>
       | RemoveArray ts \<Rightarrow> g\<lparr> group_items := foldl map_delete (group_items g) ts \<rparr>)"

section \<open>The endpoint's jobs\<close>

text \<open>
  The connection (\<^verbatim>\<open>s7connection.js\<close>) and the PLC behind it are not among the source
  files: they are a parameter, a pair of functions from a request and the state \<open>'c\<close> of
  connection and PLC to the outcome of the job and the new state. The outcome is the
  value the job's promise settles to.
\<close>

record S7AnyRequest = VarRequest +
  syntax_id :: int

record VarResult =
  returnCode :: int
  data :: "byte list"

record 'c S7Connection =
  requestReadVars :: "S7AnyRequest list \<Rightarrow> 'c \<Rightarrow> (error + VarResult list) \<times> 'c"
  requestWriteVar ::
    "S7AnyRequest list \<Rightarrow> (int \<times> byte list) list \<Rightarrow> 'c \<Rightarrow> (error + VarResult list) \<times> 'c"

definition syntax_S7ANY :: int where
  \<comment> \<open>Modelled from the spec: \<^verbatim>\<open>constants.proto.syntax.S7ANY\<close> of the missing constants.json ("S7-ANY syntax (variant 0x10)").\<close>
  "syntax_S7ANY = 0x10"

text \<open>JavaScript's \<^verbatim>\<open>x << 3\<close>: the operand as a 32-bit integer, shifted, read as signed.\<close>

definition js_shl3 :: "int \<Rightarrow> int" where
  "js_shl3 x = sint (push_bit 3 (word_of_int x :: 32 word))"

definition s7any :: "'a VarRequest_scheme \<Rightarrow> S7AnyRequest" where
  "s7any item =
    \<lparr> area = area item, db = db item, transport = transport item,
      address = (if transport item = transport_BIT then address item else js_shl3 (address item)),
      length' = length' item, syntax_id = syntax_S7ANY \<rparr>"

definition readVars ::
  "'c S7Connection \<Rightarrow> S7Endpoint \<Rightarrow> 'a VarRequest_scheme list \<Rightarrow> 'c
    \<Rightarrow> (error + VarResult list) \<times> 'c" where
  "readVars C ep its c =
    (if connectionState ep \<noteq> CONN_CONNECTED then (Inl (NodeS7Error ERR_NOT_CONNECTED NoInfo), c)
     else requestReadVars C (map s7any its) c)"

definition writeVars ::
  "'c S7Connection \<Rightarrow> S7Endpoint \<Rightarrow> WriteRequest list \<Rightarrow> 'c
    \<Rightarrow> (error + VarResult list) \<times> 'c" where
  "writeVars C ep its c =
    (if connectionState ep \<noteq> CONN_CONNECTED then (Inl (NodeS7Error ERR_NOT_CONNECTED NoInfo), c)
     else requestWriteVar C (map s7any its)
            (map (\<lambda>item. (dataTransport item, WriteRequest.data item)) its) c)"

text \<open>
  \<^verbatim>\<open>requests = xs.map(x => job(x))\<close>: the jobs are issued in order, each on the state
  the one before has left.
\<close>

fun issue_all :: "('r \<Rightarrow> 'c \<Rightarrow> 'a \<times> 'c) \<Rightarrow> 'r list \<Rightarrow> 'c \<Rightarrow> 'a list \<times> 'c" where
  "issue_all job [] c = ([], c)"
| "issue_all job (r # rs) c =
    (case job r c of (a, c') \<Rightarrow> (case issue_all job rs c' of (as, c'') \<Rightarrow> (a # as, c'')))"

text \<open>
  \<^verbatim>\<open>await Promise.all(requests)\<close>: the values of all promises, or a rejection. When several
  jobs are rejected the model takes the first in the order of the requests.
\<close>

fun promise_all :: "(error + 'a) list \<Rightarrow> error + 'a list" where
  "promise_all [] = Inr []"
| "promise_all (Inl e # rs) = Inl e"
| "promise_all (Inr a # rs) = (case promise_all rs of Inl e \<Rightarrow> Inl e | Inr as \<Rightarrow> Inr (a # as))"

section \<open>Reading and writing an area\<close>

text \<open>
  The \<^verbatim>\<open>for (let ptr = 0; ptr < length; ptr += maxPayload)\<close> loop of \<^verbatim>\<open>readArea\<close>, which
  collects one request per pass. With \<^verbatim>\<open>maxPayload <= 0\<close> it never ends.
\<close>

partial_function (option) readArea_loop ::
  "int \<Rightarrow> int option \<Rightarrow> int \<Rightarrow> int \<Rightarrow> int \<Rightarrow> int \<Rightarrow> VarRequest list \<Rightarrow> VarRequest list option" where
  "readArea_loop area' db' address' length'' maxPayload ptr requests =
    (if ptr < length'' then
       readArea_loop area' db' address' length'' maxPayload (ptr + maxPayload)
         (requests @ [\<lparr> area = area', db = db', transport = transport_BYTE,
                        address = address' + ptr,
                        length' = min (length'' - ptr) maxPayload \<rparr>])
     else Some requests)"

declare readArea_loop.simps [code]

text \<open>
  The loop over the results: more than one item in a result is an error, an empty result
  makes \<^verbatim>\<open>res[0].returnCode\<close> a \<^verbatim>\<open>TypeError\<close>.
\<close>

fun readArea_results :: "VarResult list list \<Rightarrow> byte list list \<Rightarrow> error + byte list list" where
  "readArea_results [] data' = Inr data'"
| "readArea_results (res # results) data' =
    (if length res > 1 then Inl (NodeS7Error ERR_UNEXPECTED_RESPONSE NoInfo)
     else case res of
        [] \<Rightarrow> Inl JsTypeError
      | r # _ \<Rightarrow>
          if returnCode r \<noteq> retval_DATA_OK then Inl (NodeS7Error (RetCode (returnCode r)) NoInfo)
          else readArea_results results (data' @ [data r]))"

text \<open>
  \<^verbatim>\<open>readArea\<close>: \<open>None\<close> when the loop never ends. A pdu size of \<^verbatim>\<open>null\<close> counts as 0 in
  \<^verbatim>\<open>this._pduSize - 18\<close>.
\<close>

definition pduSize_number :: "S7Endpoint \<Rightarrow> int" where
  "pduSize_number ep = (case pduSize ep of None \<Rightarrow> 0 | Some n \<Rightarrow> n)"

definition readArea ::
  "'c S7Connection \<Rightarrow> S7Endpoint \<Rightarrow> int \<Rightarrow> int \<Rightarrow> int \<Rightarrow> int option \<Rightarrow> 'c
    \<Rightarrow> ((error + byte list) \<times> 'c) option" where
  "readArea C ep area' address' length'' db' c =
    (if connectionState ep \<noteq> CONN_CONNECTED then Some (Inl (NodeS7Error ERR_NOT_CONNECTED NoInfo), c)
     else
       (case readArea_loop area' db' address' length'' (pduSize_number ep - 18) 0 [] of
          None \<Rightarrow> None
        | Some requests \<Rightarrow>
            (case issue_all (\<lambda>item. readVars C ep [item]) requests c of
               (promises, c') \<Rightarrow>
                 (case promise_all promises of
                    Inl e \<Rightarrow> Some (Inl e, c')
                  | Inr results \<Rightarrow>
                      (case readArea_results results [] of
                         Inl e \<Rightarrow> Some (Inl e, c')
                       | Inr data' \<Rightarrow> Some (Inr (concat data'), c'))))))"

text \<open>
  \<^verbatim>\<open>Buffer.prototype.slice(start, end)\<close>: a negative index counts from the end of the
  buffer, both indices are clamped to the buffer, and the slice is empty unless
  \<^verbatim>\<open>end > start\<close>.
\<close>

definition adjustOffset :: "int \<Rightarrow> int \<Rightarrow> int" where
  "adjustOffset off len =
    (if off < 0 then (if off + len > 0 then off + len else 0)
     else if off < len then off else len)"

definition buffer_slice :: "byte list \<Rightarrow> int \<Rightarrow> int \<Rightarrow> byte list" where
  "buffer_slice buf start end' =
    (let s = adjustOffset start (int (length buf));
         e = adjustOffset end' (int (length buf))
     in if e > s then take (nat (e - s)) (drop (nat s) buf) else [])"

text \<open>
  The loop of \<^verbatim>\<open>writeArea\<close>; \<open>bbyte\<close> is \<^verbatim>\<open>constants.proto.dataTransport.BBYTE\<close>, a constant
  of the missing constants.json that the specification does not list.
\<close>

partial_function (option) writeArea_loop ::
  "int \<Rightarrow> int \<Rightarrow> int option \<Rightarrow> int \<Rightarrow> byte list \<Rightarrow> int \<Rightarrow> int \<Rightarrow> WriteRequest list
    \<Rightarrow> WriteRequest list option" where
  "writeArea_loop bbyte area' db' address' data' maxPayload ptr requests =
    (if ptr < int (length data') then
       (let chunk = buffer_slice data' ptr (min (int (length data') - ptr) maxPayload) in
        writeArea_loop bbyte area' db' address' data' maxPayload (ptr + maxPayload)
          (requests @ [\<lparr> area = area', db = db', transport = transport_BYTE,
                         address = address' + ptr, length' = int (length chunk),
                         dataTransport = bbyte, data = chunk \<rparr>]))
     else Some requests)"

declare writeArea_loop.simps [code]

fun writeArea_results :: "VarResult list list \<Rightarrow> error + unit" where
  "writeArea_results [] = Inr ()"
| "writeArea_results (res # results) =
    (if length res > 1 then Inl (NodeS7Error ERR_UNEXPECTED_RESPONSE NoInfo)
     else case res of
        [] \<Rightarrow> Inl JsTypeError
      | r # _ \<Rightarrow>
          if returnCode r \<noteq> retval_DATA_OK then Inl (NodeS7Error (RetCode (returnCode r)) NoInfo)
          else writeArea_results results)"

definition writeArea ::
  "int \<Rightarrow> 'c S7Connection \<Rightarrow> S7Endpoint \<Rightarrow> int \<Rightarrow> int \<Rightarrow> byte list \<Rightarrow> int option \<Rightarrow> 'c
    \<Rightarrow> ((error + unit) \<times> 'c) option" where
  "writeArea bbyte C ep area' address' data' db' c =
    (if connectionState ep \<noteq> CONN_CONNECTED then Some (Inl (NodeS7Error ERR_NOT_CONNECTED NoInfo), c)
     else
       (case writeArea_loop bbyte area' db' address' data' (pduSize_number ep - 28) 0 [] of
          None \<Rightarrow> None
        | Some requests \<Rightarrow>
            (case issue_all (\<lambda>item. writeVars C ep [item]) requests c of
               (promises, c') \<Rightarrow>
                 (case promise_all promises of
                    Inl e \<Rightarrow> Some (Inl e, c')
                  | Inr results \<Rightarrow> Some (writeArea_results results, c')))))"

section \<open>Grouped reads\<close>

text \<open>
  \<^verbatim>\<open>reqPart.offsets[k]\<close> is \<^verbatim>\<open>undefined\<close> beyond the end of the array.
\<close>

definition array_get :: "'a list \<Rightarrow> nat \<Rightarrow> 'a option" where
  "array_get xs k = (if k < length xs then Some (xs ! k) else None)"

text \<open>
  \<^verbatim>\<open>item._copyFromBuffer\<close> changes the item object, which is the object the item map
  holds: an item is stored under its name, and the model changes that entry of the map.
  The loop over the items of a part stops with a \<^verbatim>\<open>TypeError\<close> at the first item for which
  \<^verbatim>\<open>reqPart.offsets[k]\<close> is \<^verbatim>\<open>undefined\<close>; the items before it have been copied.
\<close>

definition update_item ::
  "(string \<times> 'a) list \<Rightarrow> string \<Rightarrow> ('a \<Rightarrow> 'a) \<Rightarrow> (string \<times> 'a) list" where
  "update_item m k f = map (\<lambda>kv. if fst kv = k then (fst kv, f (snd kv)) else kv) m"

fun scatter_part ::
  "'v S7Item_methods \<Rightarrow> (string \<times> 'v S7Item) list \<Rightarrow> 'v S7Item list \<Rightarrow> CopyOffsets list
    \<Rightarrow> byte list \<Rightarrow> nat \<Rightarrow> error option \<times> (string \<times> 'v S7Item) list" where
  "scatter_part M m [] offs d k = (None, m)"
| "scatter_part M m (item # rest) offs d k =
    (case array_get offs k of
       None \<Rightarrow> (Some JsTypeError, m)
     | Some off \<Rightarrow>
         scatter_part M (update_item m (name item) (\<lambda>it. copyFromBuffer M it d off))
           rest offs d (Suc k))"

definition part_info :: "'a VarRequest_scheme \<Rightarrow> err_info" where
  "part_info reqPart = PartInfo (area reqPart) (db reqPart) (address reqPart) (length' reqPart)"

text \<open>
  The loop over the parts of one request packet and the parts of its response, in step:
  a response with fewer parts than the request is an empty response for the first part
  it lacks.
\<close>

fun parse_packet ::
  "'v S7Item_methods \<Rightarrow> (string \<times> 'v S7Item) list \<Rightarrow> 'v ReadPart list \<Rightarrow> VarResult list
    \<Rightarrow> error option \<times> (string \<times> 'v S7Item) list" where
  "parse_packet M m [] res = (None, m)"
| "parse_packet M m (reqPart # req) [] =
    (Some (NodeS7Error ERR_UNEXPECTED_RESPONSE (part_info reqPart)), m)"
| "parse_packet M m (reqPart # req) (resPart # res) =
    (if returnCode resPart \<noteq> retval_DATA_OK then
       (Some (NodeS7Error (RetCode (returnCode resPart)) (part_info reqPart)), m)
     else
       (case scatter_part M m (items reqPart) (offsets reqPart) (data resPart) 0 of
          (Some e, m') \<Rightarrow> (Some e, m')
        | (None, m') \<Rightarrow> parse_packet M m' req res))"

text \<open>
  The loop over the packets; \<^verbatim>\<open>Promise.all\<close> gives as many responses as there are
  packets, and the case of a missing one (a \<^verbatim>\<open>TypeError\<close> on \<^verbatim>\<open>res[j]\<close>) is there for
  totality.
\<close>

fun parse_responses ::
  "'v S7Item_methods \<Rightarrow> (string \<times> 'v S7Item) list \<Rightarrow> 'v ReadPart list list
    \<Rightarrow> VarResult list list \<Rightarrow> error option \<times> (string \<times> 'v S7Item) list" where
  "parse_responses M m [] responses = (None, m)"
| "parse_responses M m (req # reqs) [] =
    (if req = [] then parse_responses M m reqs [] else (Some JsTypeError, m))"
| "parse_responses M m (req # reqs) (res # responses) =
    (case parse_packet M m req res of
       (Some e, m') \<Rightarrow> (Some e, m')
     | (None, m') \<Rightarrow> parse_responses M m' reqs responses)"

text \<open>
  \<^verbatim>\<open>readAllItems\<close>. \<open>requestTime\<close> is what \<^verbatim>\<open>process.hrtime(requestTime)\<close> returns, a
  reading of the clock. The result is \<open>None\<close> when the planner never returns; otherwise the
  mapping from tag to value (in the order of the item map) or the error, the group and
  the state of the connection as the call leaves them.
\<close>

definition readAllItems ::
  "'v S7Item_methods \<Rightarrow> 'c S7Connection \<Rightarrow> nat \<Rightarrow> 'v S7ItemGroup \<Rightarrow> 'c
    \<Rightarrow> ((error + (string \<times> 'v) list) \<times> 'v S7ItemGroup \<times> 'c) option" where
  "readAllItems M C requestTime g c =
    (case endpoint g of
       None \<Rightarrow> Some (Inl AlreadyDestroyed, g, c)
     | Some ep \<Rightarrow>
        (case (if readPackets g = None then prepareReadPackets M g else Some (None, g)) of
           None \<Rightarrow> None
         | Some (Some e, g1) \<Rightarrow> Some (Inl e, g1, c)
         | Some (None, g1) \<Rightarrow>
            (case readPackets g1 of
               None \<Rightarrow> Some (Inl JsTypeError, g1, c)
             | Some pkts \<Rightarrow>
                if pkts = [] then Some (Inr [], g1, c)
                else
                  (case issue_all (readVars C ep) pkts c of
                     (promises, c') \<Rightarrow>
                       (case promise_all promises of
                          Inl e \<Rightarrow> Some (Inl e, g1, c')
                        | Inr responses \<Rightarrow>
                            (case parse_responses M (group_items g1) pkts responses of
                               (Some e, m) \<Rightarrow>
                                 Some (Inl e,
                                       g1\<lparr> lastRequestTime := Some requestTime,
                                           group_items := m \<rparr>, c')
                             | (None, m) \<Rightarrow>
                                 (let m' = map (\<lambda>kv. (fst kv, updateValueFromBuffer M (snd kv))) m
                                  in Some (Inr (map (\<lambda>kv. (fst kv, item_value (snd kv))) m'),
                                           g1\<lparr> lastRequestTime := Some requestTime,
                                               group_items := m' \<rparr>, c'))))))))"

section \<open>Grouped writes\<close>

definition overheadPerItem :: int where "overheadPerItem = 16"

text \<open>
  The item a tag of \<^verbatim>\<open>writeItems\<close> stands for: the item of the map stored under the tag
  or, when there is none, a new item made for this write, which is not put into the map.
\<close>

definition write_item ::
  "'v S7Item_methods \<Rightarrow> 'v S7ItemGroup \<Rightarrow> string \<Rightarrow> error + 'v S7Item" where
  "write_item M g t =
    (case map_get (group_items g) t of
       Some item \<Rightarrow> Inr item
     | None \<Rightarrow> new_S7Item M t (translationCallback g t))"

text \<open>
  The request item pushed for an item and its write buffer; \<open>bbit\<close> is
  \<^verbatim>\<open>constants.proto.dataTransport.BBIT\<close>, a constant of the missing constants.json that the
  specification does not list.
\<close>

definition write_request :: "int \<Rightarrow> 'v S7Item \<Rightarrow> byte list \<Rightarrow> WriteRequest" where
  "write_request bbit item buf =
    (let bitAddr = (writeTransportCode item = bbit) in
     \<lparr> area = areaCode item, db = dbNumber item,
       transport = (if bitAddr then transport_BIT else readTransportCode item),
       address = (if bitAddr then js_shl3 (offset item) + bitOffset item else offset item),
       length' = int (length buf),
       dataTransport = writeTransportCode item,
       data = buf \<rparr>)"

text \<open>
  The loop of \<^verbatim>\<open>writeItems\<close> that builds the request packets. The result is the error
  thrown or \<^verbatim>\<open>reqPackets\<close> and \<^verbatim>\<open>reqItems\<close> as the loop leaves them.
\<close>

fun writeItems_loop ::
  "int \<Rightarrow> 'v S7Item_methods \<Rightarrow> 'v S7ItemGroup \<Rightarrow> int \<Rightarrow> ('v tag \<times> 'v) list
    \<Rightarrow> WriteRequest list list \<Rightarrow> WriteRequest list \<Rightarrow> int
    \<Rightarrow> error + (WriteRequest list list \<times> WriteRequest list)" where
  "writeItems_loop bbit M g maxPayloadSize [] reqPackets reqItems curRequestLength =
    Inr (reqPackets, reqItems)"
| "writeItems_loop bbit M g maxPayloadSize ((t, v) # rest) reqPackets reqItems curRequestLength =
    (case t of
       TagString s \<Rightarrow>
         (case write_item M g s of
            Inl e \<Rightarrow> Inl e
          | Inr item \<Rightarrow>
             (case getWriteBuffer M item v of
                Inl e \<Rightarrow> Inl e
              | Inr buf \<Rightarrow>
                 (let reqItemLength = overheadPerItem + byteLengthWithFill item in
                  if reqItemLength > maxPayloadSize then
                    Inl (NodeS7Error ERR_ITEM_TOO_BIG (TagInfo s))
                  else if curRequestLength + reqItemLength > maxPayloadSize then
                    writeItems_loop bbit M g maxPayloadSize rest (reqPackets @ [reqItems])
                      [write_request bbit item buf] (0 + reqItemLength)
                  else
                    writeItems_loop bbit M g maxPayloadSize rest reqPackets
                      (reqItems @ [write_request bbit item buf])
                      (curRequestLength + reqItemLength))))
     | _ \<Rightarrow> Inl (NodeS7Error ERR_INVALID_ARGUMENT NoInfo))"

text \<open>The loop over the responses: the first return code that is not DATA_OK is thrown.\<close>

fun writeItems_responses :: "VarResult list list \<Rightarrow> error + unit" where
  "writeItems_responses [] = Inr ()"
| "writeItems_responses ([] # responses) = writeItems_responses responses"
| "writeItems_responses ((res # resp) # responses) =
    (if returnCode res \<noteq> retval_DATA_OK then Inl (NodeS7Error (RetCode (returnCode res)) NoInfo)
     else writeItems_responses (resp # responses))"

definition writeItems ::
  "int \<Rightarrow> 'v S7Item_methods \<Rightarrow> 'c S7Connection \<Rightarrow> nat \<Rightarrow> 'v tag one_or_array \<Rightarrow> 'v one_or_array
    \<Rightarrow> 'v S7ItemGroup \<Rightarrow> 'c \<Rightarrow> (error + unit) \<times> 'v S7ItemGroup \<times> 'c" where
  "writeItems bbit M C requestTime tags values g c =
    (case endpoint g of
       None \<Rightarrow> (Inl AlreadyDestroyed, g, c)
     | Some ep \<Rightarrow>
        (case (case tags of
                 One (TagString s) \<Rightarrow> Some [TagString s]
               | One _ \<Rightarrow> None
               | Array ts \<Rightarrow> Some ts) of
           None \<Rightarrow> (Inl (NodeS7Error ERR_INVALID_ARGUMENT NoInfo), g, c)
         | Some tags' \<Rightarrow>
            (let values' = (case values of Array vs \<Rightarrow> vs | One v \<Rightarrow> [v]) in
             if length values' \<noteq> length tags' then
               (Inl (NodeS7Error ERR_INVALID_ARGUMENT NoInfo), g, c)
             else if tags' = [] then (Inr (), g, c)
             else if \<not> isConnected ep then (Inl (NodeS7Error ERR_NOT_CONNECTED NoInfo), g, c)
             else
               (case writeItems_loop bbit M g (pduSize_number ep - 12) (zip tags' values')
                       [] [] 0 of
                  Inl e \<Rightarrow> (Inl e, g, c)
                | Inr (reqPackets, reqItems) \<Rightarrow>
                   (case issue_all (writeVars C ep) (reqPackets @ [reqItems]) c of
                      (promises, c') \<Rightarrow>
                        (case promise_all promises of
                           Inl e \<Rightarrow> (Inl e, g, c')
                         | Inr responses \<Rightarrow>
                             (writeItems_responses responses,
                              g\<lparr> lastRequestTime := Some requestTime \<rparr>, c')))))))"

section \<open>Sizes of a read packet\<close>

text \<open>
  The length of the response to a packet and of its request, as the planner counts them:
  a header and, for every part, the part's overhead (and in the response its bytes).
\<close>

definition packet_resLength :: "'v ReadPart list \<Rightarrow> int" where
  "packet_resLength pk = 14 + sum_list (map (\<lambda>p. length' p + 4) pk)"

definition packet_reqLength :: "'v ReadPart list \<Rightarrow> int" where
  "packet_reqLength pk = 12 + 12 * int (length pk)"

text \<open>
  What the packing loop keeps true of every packet it has built, for the maximum payload
  \<open>mx\<close>: the packet has a part, its response fits, and its request fits when the packet
  has more than one part or \<open>mx\<close> is at least 24.
\<close>

definition packet_fits :: "int \<Rightarrow> 'v ReadPart list \<Rightarrow> bool" where
  "packet_fits mx pk =
    (pk \<noteq> [] \<and> packet_resLength pk \<le> mx
     \<and> (if 24 \<le> mx \<or> 1 < length pk then packet_reqLength pk \<le> mx else True))"

definition plan_inv :: "int \<Rightarrow> 'v plan_state \<Rightarrow> bool" where
  "plan_inv mx st =
    (list_all (packet_fits mx) (packets st)
     \<and> (if packet st then
           packets st \<noteq> []
           \<and> pktResLength st = packet_resLength (last (packets st))
           \<and> pktReqLength st = packet_reqLength (last (packets st))
         else True))"

text \<open>
  An item whose address is \<^verbatim>\<open>DB<dbn>,BYTE<off>\<close>: what the address parser (not among the
  source files) makes of the tag, by the specification's data model.
\<close>

definition is_DB_BYTE :: "'v S7Item \<Rightarrow> int \<Rightarrow> int \<Rightarrow> bool" where
  "is_DB_BYTE item dbn off =
    (addrtype item = ''DB'' \<and> areaCode item = area_DB \<and> dbNumber item = Some dbn
     \<and> offset item = off \<and> bitOffset item = 0 \<and> byteLength item = 1)"

section \<open>The order of the sort\<close>

text \<open>
  The data model's constraint on an item that the sort relies on: the address type is
  \<^verbatim>\<open>DB\<close> exactly for the items of area DB, and those have a db number.
\<close>

definition item_wf :: "'v S7Item \<Rightarrow> bool" where
  "item_wf i =
    ((addrtype i = ''DB'') = (areaCode i = area_DB)
     \<and> (if addrtype i = ''DB'' then dbNumber i \<noteq> None else True))"

text \<open>
  The sort key in the specification's words: area code; db number when the address type
  is DB; byte offset; bit offset; byte length, descending. Keys are compared
  lexicographically (the order of \<open>HOL-Library.Product_Lexorder\<close>).
\<close>

definition item_key :: "'v S7Item \<Rightarrow> int \<times> int \<times> int \<times> int \<times> int" where
  "item_key i =
    (areaCode i,
     (if addrtype i = ''DB'' then (case dbNumber i of None \<Rightarrow> 0 | Some n \<Rightarrow> n) else 0),
     offset i, bitOffset i, - byteLength i)"

section \<open>The slices of an area read\<close>

text \<open>
  The slices the specification describes for \<^verbatim>\<open>readArea\<close>, for a maximum payload \<open>mp\<close>:
  slice \<open>i\<close> starts at \<open>address + i \<cdot> mp\<close> and has \<open>min (remaining, mp)\<close> bytes; there
  are \<open>\<lceil>length / mp\<rceil>\<close> of them.
\<close>

definition readArea_slice :: "int \<Rightarrow> int option \<Rightarrow> int \<Rightarrow> int \<Rightarrow> int \<Rightarrow> nat \<Rightarrow> VarRequest" where
  "readArea_slice area' db' address' len mp i =
    \<lparr> area = area', db = db', transport = transport_BYTE,
      address = address' + int i * mp, length' = min (len - int i * mp) mp \<rparr>"

definition slice_count :: "int \<Rightarrow> int \<Rightarrow> nat" where
  "slice_count len mp = nat ((len + mp - 1) div mp)"

definition readArea_slices :: "int \<Rightarrow> int option \<Rightarrow> int \<Rightarrow> int \<Rightarrow> int \<Rightarrow> VarRequest list" where
  "readArea_slices area' db' address' len mp =
    map (readArea_slice area' db' address' len mp) [0..<slice_count len mp]"

section \<open>Plans with all their copy descriptors\<close>

text \<open>
  Every part of the plan has a copy descriptor for each of its items, as the second loop
  of the planner leaves a plan when it does not throw.
\<close>

definition part_complete :: "'v ReadPart \<Rightarrow> bool" where
  "part_complete p = (length (items p) \<le> length (offsets p))"


section \<open>Packing of write requests\<close>

text \<open>
  The packing of \<^verbatim>\<open>writeItems\<close> in the specification's words, on requests paired with
  their sizes: a request is appended to the current packet until its size plus the
  length of the current packet exceeds the maximum payload, at which point a new packet
  begins.
\<close>

fun pack_from :: "int \<Rightarrow> (int \<times> 'a) list \<Rightarrow> (int \<times> 'a) list \<Rightarrow> (int \<times> 'a) list list" where
  "pack_from mx cur [] = [cur]"
| "pack_from mx cur (x # rest) =
    (if sum_list (map fst cur) + fst x > mx then cur # pack_from mx [x] rest
     else pack_from mx (cur @ [x]) rest)"

text \<open>
  A tag and value of a call of \<^verbatim>\<open>writeItems\<close> resolve to an item and its write buffer: the
  tag is a string, the item is the one the tag stands for, and the value encodes.
\<close>

definition resolves ::
  "'v S7Item_methods \<Rightarrow> 'v S7ItemGroup \<Rightarrow> 'v tag \<times> 'v \<Rightarrow> 'v S7Item \<times> byte list \<Rightarrow> bool" where
  "resolves M g tv ib =
    (case fst tv of
       TagString s \<Rightarrow> write_item M g s = Inr (fst ib) \<and> getWriteBuffer M (fst ib) (snd tv) = Inr (snd ib)
     | _ \<Rightarrow> False)"

definition sized_request :: "int \<Rightarrow> 'v S7Item \<times> byte list \<Rightarrow> int \<times> WriteRequest" where
  "sized_request bbit ib =
    (overheadPerItem + byteLengthWithFill (fst ib), write_request bbit (fst ib) (snd ib))"

definition too_big :: "int \<Rightarrow> 'v S7Item \<times> byte list \<Rightarrow> bool" where
  "too_big mx ib = (overheadPerItem + byteLengthWithFill (fst ib) > mx)"

text \<open>
  The write packets of a call in the specification's words: the sized requests of the
  items, packed from an empty first packet.
\<close>

definition write_packets ::
  "int \<Rightarrow> int \<Rightarrow> ('v S7Item \<times> byte list) list \<Rightarrow> (int \<times> WriteRequest) list list" where
  "write_packets bbit mx ibs = pack_from mx [] (map (sized_request bbit) ibs)"

section \<open>Example inputs\<close>

text \<open>
  Inputs for the closed instances of the theorems below. The methods of \<^verbatim>\<open>S7Item\<close> are
  a parameter of the model; the examples need one value of it.
\<close>

definition spec_getCopyBufferOffsets :: "'v S7Item \<Rightarrow> int \<Rightarrow> int \<Rightarrow> CopyOffsets option" where
  \<comment> \<open>Modelled from the spec: \<^verbatim>\<open>S7Item._getCopyBufferOffsets\<close> of the missing s7item.js
     ("given a window, compute the tuple {sourceOffset, destOffset, byteCount} identifying
     where this item's bytes live within the window; returns none if the window does not
     cover the item"), read as: none when the window holds no byte of the item.\<close>
  "spec_getCopyBufferOffsets item partAddress partLength =
    (let start = max (offset item) partAddress;
         stop = min (offset item + byteLength item) (partAddress + partLength)
     in if stop \<le> start then None
        else Some \<lparr> sourceOffset = start - partAddress, destOffset = start - offset item,
                    byteCount = stop - start \<rparr>)"

definition ex_item :: "string \<Rightarrow> string \<Rightarrow> int \<Rightarrow> int option \<Rightarrow> int \<Rightarrow> int \<Rightarrow> unit S7Item" where
  "ex_item nm ty ar dbn off len =
    \<lparr> name = nm, addrtype = ty, areaCode = ar, dbNumber = dbn, offset = off, bitOffset = 0,
      byteLength = len, byteLengthWithFill = len, readTransportCode = transport_BYTE,
      writeTransportCode = 4, buffer = replicate (nat len) 0, item_value = () \<rparr>"

text \<open>
  The example \<^verbatim>\<open>S7Item\<close> class parses the one address \<^verbatim>\<open>DB1,BYTE0\<close> and rejects every
  other string with ERR_PARSE_ADDR.
\<close>

definition ex_methods :: "unit S7Item_methods" where
  "ex_methods =
    \<lparr> new_S7Item = (\<lambda>nm addr.
        if addr = ''DB1,BYTE0'' then Inr (ex_item nm ''DB'' area_DB (Some 1) 0 1)
        else Inl (NodeS7Error ERR_PARSE_ADDR NoInfo)),
      getCopyBufferOffsets = spec_getCopyBufferOffsets,
      copyFromBuffer = (\<lambda>item buf off. item),
      updateValueFromBuffer = (\<lambda>item. item),
      getWriteBuffer = (\<lambda>item v. Inr (replicate (nat (byteLengthWithFill item)) 0)) \<rparr>"

definition ex_endpoint :: "int \<Rightarrow> S7Endpoint" where
  "ex_endpoint pdu = \<lparr> connectionState = CONN_CONNECTED, pduSize = Some pdu \<rparr>"

definition ex_group :: "int \<Rightarrow> unit S7Item list \<Rightarrow> unit S7ItemGroup" where
  "ex_group pdu its =
    (new_S7ItemGroup (ex_endpoint pdu) False None)\<lparr> group_items := map (\<lambda>i. (name i, i)) its \<rparr>"

section \<open>Coalesced items\<close>

text \<open>
  The condition under which the specification lets two consecutive items share a part:
  same area, an area among DB, inputs, outputs and flags, same db number, and a distance
  between the end of the first and the start of the second below the optimization gap.
\<close>

definition coalescable :: "'v S7ItemGroup \<Rightarrow> 'v S7Item \<Rightarrow> 'v S7Item \<Rightarrow> bool" where
  "coalescable g a b =
    (areaCode a = areaCode b
     \<and> (areaCode b = area_DB \<or> areaCode b = area_INPUTS
          \<or> areaCode b = area_OUTPUTS \<or> areaCode b = area_FLAGS)
     \<and> dbNumber a = dbNumber b
     \<and> abs (offset b - (offset a + byteLength a)) < optimizationGap g)"

definition part_chain :: "'v S7ItemGroup \<Rightarrow> 'v ReadPart \<Rightarrow> bool" where
  "part_chain g p = (items p \<noteq> [] \<and> successively (coalescable g) (items p))"

text \<open>
  What holds of the working variables between two items (\<open>chain_inv\<close>) and after the
  loop of one item (\<open>chain_post\<close>): the items of every part form a chain of coalescable
  neighbours, and the part that \<^verbatim>\<open>part\<close> refers to ends with the item placed last.
\<close>

definition chain_inv :: "'v S7ItemGroup \<Rightarrow> 'v plan_state \<Rightarrow> bool" where
  "chain_inv g st =
    (list_all (\<lambda>pk. pk \<noteq> [] \<and> list_all (part_chain g) pk) (packets st)
     \<and> (if packet st then packets st \<noteq> [] else True)
     \<and> (if packet st \<and> part st then lastItem st = Some (last (items (cur_part st))) else True))"

definition chain_post :: "'v S7ItemGroup \<Rightarrow> 'v S7Item \<Rightarrow> 'v plan_state \<Rightarrow> bool" where
  "chain_post g item st =
    (list_all (\<lambda>pk. pk \<noteq> [] \<and> list_all (part_chain g) pk) (packets st)
     \<and> (if packet st then packets st \<noteq> [] else True)
     \<and> (if packet st \<and> part st then last (items (cur_part st)) = item else True))"

definition ex_connection :: "(S7AnyRequest list list) S7Connection" where
  \<comment> \<open>A connection that records the requests of the jobs it is given and answers every
     read with zero bytes of the requested length, every write with DATA_OK.\<close>
  "ex_connection =
    \<lparr> requestReadVars = (\<lambda>reqs log.
        (Inr (map (\<lambda>r. \<lparr> returnCode = retval_DATA_OK, data = replicate (nat (length' r)) 0 \<rparr>) reqs),
         log @ [reqs])),
      requestWriteVar = (\<lambda>reqs payload log.
        (Inr (map (\<lambda>r. \<lparr> returnCode = retval_DATA_OK, data = [] \<rparr>) reqs), log @ [reqs])) \<rparr>"

definition ex_connection_invalid :: "int \<Rightarrow> (S7AnyRequest list list) S7Connection" where
  \<comment> \<open>A connection like \<open>ex_connection\<close> whose PLC has no data block \<open>n\<close>: a part that
     reads from it gets the return code 0x05 (invalid address).\<close>
  "ex_connection_invalid n =
    \<lparr> requestReadVars = (\<lambda>reqs log.
        (Inr (map (\<lambda>r. if db r = Some n then \<lparr> returnCode = 0x05, data = [] \<rparr>
                         else \<lparr> returnCode = retval_DATA_OK,
                                data = replicate (nat (length' r)) 0 \<rparr>) reqs),
         log @ [reqs])),
      requestWriteVar = (\<lambda>reqs payload log.
        (Inr (map (\<lambda>r. \<lparr> returnCode = retval_DATA_OK, data = [] \<rparr>) reqs), log @ [reqs])) \<rparr>"

section \<open>The states of an item group\<close>

text \<open>
  The states a group can be in: it is constructed, and then changed by its own methods,
  by the \<^verbatim>\<open>pdu-size\<close> wiring of a new connection, and by the endpoint changing its
  connection state. \<open>M\<close> is the \<^verbatim>\<open>S7Item\<close> class and \<open>Cs\<close> the connections the endpoint may
  be given.
\<close>

inductive reachable ::
  "'v S7Item_methods \<Rightarrow> 'c S7Connection set \<Rightarrow> 'v S7ItemGroup \<Rightarrow> bool"
  for M :: "'v S7Item_methods" and Cs :: "'c S7Connection set" where
    constructed: "reachable M Cs (new_S7ItemGroup ep skip gap)"
  | added: "reachable M Cs g \<Longrightarrow> addItems M tags g = (e, g') \<Longrightarrow> reachable M Cs g'"
  | removed: "reachable M Cs g \<Longrightarrow> reachable M Cs (removeItems tags' g)"
  | connected: "reachable M Cs g \<Longrightarrow> reachable M Cs (onConnectionConnected newSize g)"
  | connection_state:
      "reachable M Cs g \<Longrightarrow> endpoint g = Some ep
       \<Longrightarrow> reachable M Cs (g\<lparr> endpoint := Some (ep\<lparr> connectionState := s \<rparr>) \<rparr>)"
  | read:
      "reachable M Cs g \<Longrightarrow> C \<in> Cs \<Longrightarrow> readAllItems M C requestTime g c = Some (r, g', c')
       \<Longrightarrow> reachable M Cs g'"
  | written:
      "reachable M Cs g \<Longrightarrow> C \<in> Cs \<Longrightarrow> writeItems bbit M C requestTime wtags wvalues g c = (w, g', c')
       \<Longrightarrow> reachable M Cs g'"
  | destroyed: "reachable M Cs g \<Longrightarrow> reachable M Cs (destroy g)"
  | translation: "reachable M Cs g \<Longrightarrow> reachable M Cs (g\<lparr> translationCallback := f \<rparr>)"

text \<open>
  What every such state satisfies: a cached plan was built with a pdu size that is still
  the endpoint's and not falsy, and the plan of an empty group is empty.
\<close>

definition cache_inv :: "'v S7ItemGroup \<Rightarrow> bool" where
  "cache_inv g =
    (case readPackets g of
       None \<Rightarrow> True
     | Some pkts \<Rightarrow>
         (case endpoint g of
            None \<Rightarrow> False
          | Some ep \<Rightarrow> (case pduSize ep of None \<Rightarrow> False | Some n \<Rightarrow> n \<noteq> 0))
         \<and> (if group_items g = [] then pkts = [] else True))"

chapter \<open>Verified properties\<close>

section \<open>C1: capacity of the packets of a read plan\<close>

lemma map_last_snoc: "xs \<noteq> [] \<Longrightarrow> map_last f xs = butlast xs @ [f (last xs)]"
  by (induction f xs rule: map_last.induct) auto

lemma map_last_append1 [simp]: "map_last f (xs @ [x]) = xs @ [f x]"
  by (simp add: map_last_snoc)

lemma resLength_snoc [simp]: "packet_resLength (pk @ [p]) = packet_resLength pk + length' p + 4"
  by (simp add: packet_resLength_def)

lemma reqLength_snoc [simp]: "packet_reqLength (pk @ [p]) = packet_reqLength pk + 12"
  by (simp add: packet_reqLength_def)

lemma plan_inv_last:
  assumes "plan_inv mx st" "packet st"
  obtains pks ps p where "packets st = pks @ [ps @ [p]]"
proof -
  from assms have ne: "packets st \<noteq> []" and all: "list_all (packet_fits mx) (packets st)"
    by (auto simp: plan_inv_def)
  then obtain pks pk where 1: "packets st = pks @ [pk]" by (cases "packets st" rule: rev_cases) auto
  with all have "pk \<noteq> []" by (simp add: packet_fits_def)
  then obtain ps p where "pk = ps @ [p]" by (cases pk rule: rev_cases) auto
  with 1 that show thesis by blast
qed

lemma grow_part_inv:
  assumes "plan_inv mx st" "packet st" "pktResLength st + n \<le> mx"
  shows "plan_inv mx (grow_part item n st)"
proof -
  from assms(1,2) obtain pks ps p where pk: "packets st = pks @ [ps @ [p]]" by (rule plan_inv_last)
  with assms show ?thesis
    by (auto simp: plan_inv_def grow_part_def packet_fits_def packet_resLength_def packet_reqLength_def
        split: if_splits)
qed

lemma open_part_inv:
  assumes "plan_inv mx st" "packet st" "pktReqLength st + reqPartSize \<le> mx"
    "pktResLength st + resPartSize + n \<le> mx"
  shows "plan_inv mx (open_part item off n st)"
proof -
  from assms(1,2) obtain pks ps p where pk: "packets st = pks @ [ps @ [p]]" by (rule plan_inv_last)
  with assms show ?thesis
    by (simp add: plan_inv_def open_part_def packet_fits_def new_part_def reqPartSize_def resPartSize_def
        packet_resLength_def packet_reqLength_def split: if_splits)
qed

lemma open_packet_inv:
  assumes "plan_inv mx st" "resHeaderSize + resPartSize + n \<le> mx"
  shows "plan_inv mx (open_packet item off n st)"
  using assms
  by (simp add: plan_inv_def open_packet_def packet_fits_def new_part_def reqPartSize_def resPartSize_def
      reqHeaderSize_def resHeaderSize_def packet_resLength_def packet_reqLength_def)

lemma place_item_inv:
  assumes "plan_inv mx st" and "place_item mx g item len off st = (c, len', off', st')"
  shows "plan_inv mx st'"
  using assms(2) unfolding place_item_def Let_def
  by (auto split: if_splits intro!: grow_part_inv open_part_inv open_packet_inv assms(1)
       simp: resHeaderSize_def resPartSize_def)


lemma plan_inv_reset: "plan_inv mx st \<Longrightarrow> plan_inv mx (st\<lparr> packet := False, part := False \<rparr>)"
  by (simp add: plan_inv_def)

lemma plan_inv_lastItem: "plan_inv mx st \<Longrightarrow> plan_inv mx (st\<lparr> lastItem := x \<rparr>)"
  by (simp add: plan_inv_def)

lemma item_loop_inv:
  assumes run: "item_loop mx g item len off st = Some st'" and inv: "plan_inv mx st"
  shows "plan_inv mx st'"
proof -
  have "plan_inv mx st \<longrightarrow> plan_inv mx st'"
  proof (rule item_loop.raw_induct
      [where P = "\<lambda>mx g item len off st st'. plan_inv mx st \<longrightarrow> plan_inv mx st'", OF _ run])
    fix loop :: "int \<Rightarrow> 'a S7ItemGroup \<Rightarrow> 'a S7Item \<Rightarrow> int \<Rightarrow> int \<Rightarrow> 'a plan_state \<Rightarrow> 'a plan_state option"
    fix mx g item len off st st'
    assume IH: "\<And>mx g item len off st st'.
        loop mx g item len off st = Some st' \<Longrightarrow> plan_inv mx st \<longrightarrow> plan_inv mx st'"
    assume eq: "(case place_item mx g item len off st of
        (itemComplete, itemLength', itemOffset', st') \<Rightarrow>
          if itemComplete then Some st'
          else loop mx g item itemLength' itemOffset' (st'\<lparr> packet := False, part := False \<rparr>))
        = Some st'"
    show "plan_inv mx st \<longrightarrow> plan_inv mx st'"
    proof
      assume inv0: "plan_inv mx st"
      obtain c len' off' st1 where p: "place_item mx g item len off st = (c, len', off', st1)"
        by (cases "place_item mx g item len off st") auto
      with inv0 have inv1: "plan_inv mx st1"
        by (blast intro: place_item_inv)
      show "plan_inv mx st'"
      proof (cases c)
        case True
        with eq p inv1 show ?thesis by simp
      next
        case False
        with eq p have "loop mx g item len' off' (st1\<lparr> packet := False, part := False \<rparr>) = Some st'"
          by simp
        from IH [OF this] plan_inv_reset [OF inv1] show ?thesis by blast
      qed
    qed
  qed
  with inv show ?thesis by blast
qed

lemma items_loop_inv:
  "items_loop mx g its st = Some st' \<Longrightarrow> plan_inv mx st \<Longrightarrow> plan_inv mx st'"
proof (induction its arbitrary: st)
  case Nil
  then show ?case by simp
next
  case (Cons item rest)
  from Cons.prems(1) obtain st1 where
    1: "item_loop mx g item (byteLength item) (offset item) st = Some st1" and
    2: "items_loop mx g rest (st1\<lparr> lastItem := Some item \<rparr>) = Some st'"
    by (auto split: option.splits)
  from 1 Cons.prems(2) have "plan_inv mx st1" by (rule item_loop_inv)
  then have "plan_inv mx (st1\<lparr> lastItem := Some item \<rparr>)" by (rule plan_inv_lastItem)
  with 2 show ?case by (rule Cons.IH)
qed

lemma part_offsets_VarRequest:
  "part_offsets M p its k = (e, p') \<Longrightarrow> length' p' = length' p \<and> address p' = address p \<and> area p' = area p \<and> db p' = db p \<and> items p' = items p"
  by (induction its arbitrary: p k) (auto split: option.splits)

lemma packet_offsets_lengths:
  "packet_offsets M pk = (e, pk') \<Longrightarrow> map length' pk' = map length' pk"
proof (induction pk arbitrary: e pk')
  case Nil
  then show ?case by simp
next
  case (Cons p ps)
  obtain e1 p1 where 1: "part_offsets M p (items p) 0 = (e1, p1)"
    by (cases "part_offsets M p (items p) 0") auto
  then have l: "length' p1 = length' p" by (simp add: part_offsets_VarRequest)
  show ?case
  proof (cases e1)
    case None
    obtain e2 ps2 where 2: "packet_offsets M ps = (e2, ps2)" by (cases "packet_offsets M ps") auto
    with Cons.IH have "map length' ps2 = map length' ps" by simp
    with Cons.prems 1 2 None l show ?thesis by auto
  next
    case (Some a)
    with Cons.prems 1 l show ?thesis by auto
  qed
qed

lemma packet_fits_cong:
  "map length' pk' = map length' pk \<Longrightarrow> packet_fits mx pk' = packet_fits mx pk"
proof -
  assume a: "map length' pk' = map length' pk"
  then have "length pk' = length pk" by (metis length_map)
  moreover have "sum_list (map (\<lambda>p. length' p + 4) pk') = sum_list (map (\<lambda>p. length' p + 4) pk)"
  proof -
    have "map (\<lambda>p. length' p + 4) pk' = map (\<lambda>n. n + 4) (map length' pk')" by simp
    also have "\<dots> = map (\<lambda>n. n + 4) (map length' pk)" using a by simp
    also have "\<dots> = map (\<lambda>p. length' p + 4) pk" by simp
    finally show ?thesis by simp
  qed
  ultimately show ?thesis
    by (auto simp: packet_fits_def packet_resLength_def packet_reqLength_def)
qed

lemma plan_offsets_fits:
  "plan_offsets M pks = (e, pks') \<Longrightarrow> list_all (packet_fits mx) pks \<Longrightarrow> list_all (packet_fits mx) pks'"
proof (induction pks arbitrary: e pks')
  case Nil
  then show ?case by simp
next
  case (Cons pk rest)
  obtain e1 pk1 where 1: "packet_offsets M pk = (e1, pk1)" by (cases "packet_offsets M pk") auto
  have f: "packet_fits mx pk1 = packet_fits mx pk"
    by (rule packet_fits_cong [OF packet_offsets_lengths [OF 1]])
  show ?case
  proof (cases e1)
    case None
    obtain e2 r2 where 2: "plan_offsets M rest = (e2, r2)" by (cases "plan_offsets M rest") auto
    with Cons.IH Cons.prems(2) have "list_all (packet_fits mx) r2" by simp
    with Cons.prems 1 2 None f show ?thesis by auto
  next
    case (Some a)
    with Cons.prems 1 f show ?thesis by auto
  qed
qed

lemma init_plan_inv: "plan_inv mx init_plan_state"
  by (simp add: plan_inv_def init_plan_state_def)

lemma prepareReadPackets_fits:
  assumes "prepareReadPackets M g = Some (None, g')" and "endpoint g = Some ep" and "pduSize ep = Some pdu"
    and "readPackets g' = Some plan"
  shows "list_all (packet_fits (pdu - 18)) plan"
proof (cases "map snd (group_items g) = []")
  case True
  with assms show ?thesis
    by (auto simp: prepareReadPackets_def split: if_splits)
next
  case False
  from assms have nz: "pdu \<noteq> 0"
    by (auto simp: prepareReadPackets_def)
  let ?r = "items_loop (pdu - 18) g (array_sort itemListSorter (map snd (group_items g))) init_plan_state"
  from assms False nz have "?r \<noteq> None"
    by (auto simp: prepareReadPackets_def split: option.splits)
  then obtain st where 1: "?r = Some st" by blast
  obtain e2 pks where 2: "plan_offsets M (packets st) = (e2, pks)"
    by (cases "plan_offsets M (packets st)") auto
  from assms False nz 1 2 have "e2 = None" "pks = plan"
    by (auto simp: prepareReadPackets_def)
  from 1 init_plan_inv have "plan_inv (pdu - 18) st" by (rule items_loop_inv)
  then have "list_all (packet_fits (pdu - 18)) (packets st)" by (simp add: plan_inv_def)
  with 2 \<open>pks = plan\<close> show ?thesis by (blast intro: plan_offsets_fits)
qed

text \<open>
  C1, as the claim states it, at a pdu size of 40 and a group with the one item
  \<^verbatim>\<open>DB1,BYTE0\<close>: the planner succeeds with one packet of one part, whose request length
  \<open>12 + 12 \<cdot> 1 = 24\<close> is above \<open>pduSize - 18 = 22\<close>.
\<close>

lemma ex_plan_40:
  "items_loop 22 (ex_group 40 [ex_item ''DB1,BYTE0'' ''DB'' area_DB (Some 1) 0 1])
      [ex_item ''DB1,BYTE0'' ''DB'' area_DB (Some 1) 0 1] init_plan_state
   = Some ((open_packet (ex_item ''DB1,BYTE0'' ''DB'' area_DB (Some 1) 0 1) 0 1 init_plan_state)
             \<lparr> lastItem := Some (ex_item ''DB1,BYTE0'' ''DB'' area_DB (Some 1) 0 1) \<rparr>)"
  by (simp add: item_loop.simps place_item_def init_plan_state_def ex_item_def
      resHeaderSize_def resPartSize_def open_packet_def)

theorem C1_counterexample:
  "prepareReadPackets ex_methods (ex_group 40 [ex_item ''DB1,BYTE0'' ''DB'' area_DB (Some 1) 0 1])
     = Some (None, (ex_group 40 [ex_item ''DB1,BYTE0'' ''DB'' area_DB (Some 1) 0 1])
          \<lparr> readPackets := Some [[(new_part (ex_item ''DB1,BYTE0'' ''DB'' area_DB (Some 1) 0 1) 0 1)
                 \<lparr> offsets := [\<lparr> sourceOffset = 0, destOffset = 0, byteCount = 1 \<rparr>] \<rparr>]] \<rparr>)
   \<and> \<not> packet_reqLength [(new_part (ex_item ''DB1,BYTE0'' ''DB'' area_DB (Some 1) 0 1) 0 1)
                 \<lparr> offsets := [\<lparr> sourceOffset = 0, destOffset = 0, byteCount = 1 \<rparr>] \<rparr>] \<le> 40 - 18"
proof -
  have g: "endpoint (ex_group 40 [ex_item ''DB1,BYTE0'' ''DB'' area_DB (Some 1) 0 1])
             = Some (ex_endpoint 40)"
      "group_items (ex_group 40 [ex_item ''DB1,BYTE0'' ''DB'' area_DB (Some 1) 0 1])
             = [(''DB1,BYTE0'', ex_item ''DB1,BYTE0'' ''DB'' area_DB (Some 1) 0 1)]"
    by (simp_all add: ex_group_def new_S7ItemGroup_def ex_item_def)
  have s: "array_sort itemListSorter [ex_item ''DB1,BYTE0'' ''DB'' area_DB (Some 1) 0 1]
           = [ex_item ''DB1,BYTE0'' ''DB'' area_DB (Some 1) 0 1]"
    by (simp add: array_sort_def)
  have o: "plan_offsets ex_methods
             (packets (open_packet (ex_item ''DB1,BYTE0'' ''DB'' area_DB (Some 1) 0 1) 0 1 init_plan_state))
           = (None, [[(new_part (ex_item ''DB1,BYTE0'' ''DB'' area_DB (Some 1) 0 1) 0 1)
                 \<lparr> offsets := [\<lparr> sourceOffset = 0, destOffset = 0, byteCount = 1 \<rparr>] \<rparr>]])"
    by (simp add: open_packet_def init_plan_state_def new_part_def ex_methods_def
        spec_getCopyBufferOffsets_def ex_item_def array_set_def)
  show ?thesis
    by (simp add: prepareReadPackets_def g ex_endpoint_def s ex_plan_40 o packet_reqLength_def
        del: items_loop.simps)
qed

text \<open>
  C1 (amended). Whenever the planner succeeds, every packet of its plan satisfies the
  bound on the response, \<open>14 + \<Sum>(part.length + 4) \<le> pduSize - 18\<close>, and it satisfies the
  bound on the request, \<open>12 + 12 \<cdot> parts \<le> pduSize - 18\<close>, when the pdu size is at least
  42 or the packet has more than one part.
\<close>

theorem C1_plan_capacity:
  assumes "prepareReadPackets M g = Some (None, g')"
    and "endpoint g = Some ep" and "pduSize ep = Some pdu"
  shows "\<exists>plan. readPackets g' = Some plan
           \<and> list_all (\<lambda>pk. packet_resLength pk \<le> pdu - 18
                            \<and> (42 \<le> pdu \<or> 1 < length pk \<longrightarrow> packet_reqLength pk \<le> pdu - 18)) plan"
proof -
  from assms obtain plan where p: "readPackets g' = Some plan"
    by (auto simp: prepareReadPackets_def split: if_splits option.splits prod.splits)
  with assms have "list_all (packet_fits (pdu - 18)) plan"
    by (rule prepareReadPackets_fits)
  then have "list_all (\<lambda>pk. packet_resLength pk \<le> pdu - 18
                \<and> (42 \<le> pdu \<or> 1 < length pk \<longrightarrow> packet_reqLength pk \<le> pdu - 18)) plan"
    by (rule list.pred_mono_strong) (auto simp: packet_fits_def)
  with p show ?thesis by blast
qed

theorem C1_plan_capacity_witness:
  "prepareReadPackets ex_methods (ex_group 40 [ex_item ''DB1,BYTE0'' ''DB'' area_DB (Some 1) 0 1])
     = Some (None, (ex_group 40 [ex_item ''DB1,BYTE0'' ''DB'' area_DB (Some 1) 0 1])
          \<lparr> readPackets := Some [[(new_part (ex_item ''DB1,BYTE0'' ''DB'' area_DB (Some 1) 0 1) 0 1)
                 \<lparr> offsets := [\<lparr> sourceOffset = 0, destOffset = 0, byteCount = 1 \<rparr>] \<rparr>]] \<rparr>)
   \<and> packet_resLength [(new_part (ex_item ''DB1,BYTE0'' ''DB'' area_DB (Some 1) 0 1) 0 1)
                 \<lparr> offsets := [\<lparr> sourceOffset = 0, destOffset = 0, byteCount = 1 \<rparr>] \<rparr>] \<le> 40 - 18"
proof -
  have run: "prepareReadPackets ex_methods (ex_group 40 [ex_item ''DB1,BYTE0'' ''DB'' area_DB (Some 1) 0 1])
     = Some (None, (ex_group 40 [ex_item ''DB1,BYTE0'' ''DB'' area_DB (Some 1) 0 1])
          \<lparr> readPackets := Some [[(new_part (ex_item ''DB1,BYTE0'' ''DB'' area_DB (Some 1) 0 1) 0 1)
                 \<lparr> offsets := [\<lparr> sourceOffset = 0, destOffset = 0, byteCount = 1 \<rparr>] \<rparr>]] \<rparr>)"
    using C1_counterexample by blast
  have ep: "endpoint (ex_group 40 [ex_item ''DB1,BYTE0'' ''DB'' area_DB (Some 1) 0 1])
             = Some (ex_endpoint 40)"
    by (simp add: ex_group_def new_S7ItemGroup_def)
  have pdu: "pduSize (ex_endpoint 40) = Some 40"
    by (simp add: ex_endpoint_def)
  from C1_plan_capacity [OF run ep pdu] run show ?thesis
    by simp
qed

section \<open>C4: coalescing of neighbouring items\<close>

lemma isOptimizable_coalescable:
  "isOptimizable g (Some a) b \<Longrightarrow> coalescable g a b"
  by (simp add: isOptimizable_def coalescable_def algebra_simps)

lemma chain_last:
  assumes "list_all (\<lambda>pk. pk \<noteq> [] \<and> list_all (part_chain g) pk) (packets st)" "packets st \<noteq> []"
  obtains pks ps p where "packets st = pks @ [ps @ [p]]"
proof -
  from assms obtain pks pk where 1: "packets st = pks @ [pk]"
    by (cases "packets st" rule: rev_cases) auto
  with assms have "pk \<noteq> []" by simp
  then obtain ps p where "pk = ps @ [p]" by (cases pk rule: rev_cases) auto
  with 1 that show thesis by blast
qed

lemma grow_part_chain:
  assumes "chain_inv g st" "packet st" "part st" "isOptimizable g (lastItem st) item"
  shows "chain_post g item (grow_part item n st)"
proof -
  from assms have all: "list_all (\<lambda>pk. pk \<noteq> [] \<and> list_all (part_chain g) pk) (packets st)"
    and ne: "packets st \<noteq> []" and li: "lastItem st = Some (last (items (cur_part st)))"
    by (simp_all add: chain_inv_def)
  from all ne obtain pks ps p where pk: "packets st = pks @ [ps @ [p]]" by (rule chain_last)
  then have cp: "cur_part st = p" by (simp add: cur_part_def)
  from assms(4) li cp have co: "coalescable g (last (items p)) item"
    by (simp add: isOptimizable_coalescable)
  from all pk have pc: "part_chain g p" by simp
  with co have "part_chain g (p\<lparr> length' := length' p + n, items := items p @ [item] \<rparr>)"
    by (simp add: part_chain_def successively_append_iff)
  with all pk assms(2,3) show ?thesis
    by (simp add: chain_post_def grow_part_def cur_part_def)
qed

lemma open_part_chain:
  assumes "chain_inv g st" "packet st"
  shows "chain_post g item (open_part item off n st)"
proof -
  from assms have all: "list_all (\<lambda>pk. pk \<noteq> [] \<and> list_all (part_chain g) pk) (packets st)"
    and ne: "packets st \<noteq> []"
    by (simp_all add: chain_inv_def)
  from all ne obtain pks ps p where pk: "packets st = pks @ [ps @ [p]]" by (rule chain_last)
  with all assms(2) show ?thesis
    by (simp add: chain_post_def open_part_def cur_part_def new_part_def part_chain_def)
qed

lemma open_packet_chain:
  assumes "chain_inv g st"
  shows "chain_post g item (open_packet item off n st)"
  using assms
  by (simp add: chain_inv_def chain_post_def open_packet_def cur_part_def new_part_def part_chain_def)

lemma place_item_chain:
  assumes "chain_inv g st" and "place_item mx g item len off st = (c, len', off', st')"
  shows "chain_post g item st'"
  using assms(2) unfolding place_item_def Let_def
  by (auto split: if_splits intro!: grow_part_chain open_part_chain open_packet_chain assms(1))

lemma chain_post_reset: "chain_post g item st \<Longrightarrow> chain_inv g (st\<lparr> packet := False, part := False \<rparr>)"
  by (simp add: chain_post_def chain_inv_def)

lemma chain_post_lastItem: "chain_post g item st \<Longrightarrow> chain_inv g (st\<lparr> lastItem := Some item \<rparr>)"
  by (auto simp: chain_post_def chain_inv_def cur_part_def)

lemma item_loop_chain:
  assumes run: "item_loop mx g item len off st = Some st'" and inv: "chain_inv g st"
  shows "chain_post g item st'"
proof -
  have "chain_inv g st \<longrightarrow> chain_post g item st'"
  proof (rule item_loop.raw_induct
      [where P = "\<lambda>mx g item len off st st'. chain_inv g st \<longrightarrow> chain_post g item st'", OF _ run])
    fix loop :: "int \<Rightarrow> 'a S7ItemGroup \<Rightarrow> 'a S7Item \<Rightarrow> int \<Rightarrow> int \<Rightarrow> 'a plan_state \<Rightarrow> 'a plan_state option"
    fix mx g item len off st st'
    assume IH: "\<And>mx g item len off st st'.
        loop mx g item len off st = Some st' \<Longrightarrow> chain_inv g st \<longrightarrow> chain_post g item st'"
    assume eq: "(case place_item mx g item len off st of
        (itemComplete, itemLength', itemOffset', st') \<Rightarrow>
          if itemComplete then Some st'
          else loop mx g item itemLength' itemOffset' (st'\<lparr> packet := False, part := False \<rparr>))
        = Some st'"
    show "chain_inv g st \<longrightarrow> chain_post g item st'"
    proof
      assume inv0: "chain_inv g st"
      obtain c len' off' st1 where p: "place_item mx g item len off st = (c, len', off', st1)"
        by (cases "place_item mx g item len off st") auto
      with inv0 have inv1: "chain_post g item st1"
        by (blast intro: place_item_chain)
      show "chain_post g item st'"
      proof (cases c)
        case True
        with eq p inv1 show ?thesis by simp
      next
        case False
        with eq p have "loop mx g item len' off' (st1\<lparr> packet := False, part := False \<rparr>) = Some st'"
          by simp
        from IH [OF this] chain_post_reset [OF inv1] show ?thesis by blast
      qed
    qed
  qed
  with inv show ?thesis by blast
qed

lemma items_loop_chain:
  "items_loop mx g its st = Some st' \<Longrightarrow> chain_inv g st \<Longrightarrow> chain_inv g st'"
proof (induction its arbitrary: st)
  case Nil
  then show ?case by simp
next
  case (Cons item rest)
  from Cons.prems(1) obtain st1 where
    1: "item_loop mx g item (byteLength item) (offset item) st = Some st1" and
    2: "items_loop mx g rest (st1\<lparr> lastItem := Some item \<rparr>) = Some st'"
    by (auto split: option.splits)
  from 1 Cons.prems(2) have "chain_post g item st1" by (rule item_loop_chain)
  then have "chain_inv g (st1\<lparr> lastItem := Some item \<rparr>)" by (rule chain_post_lastItem)
  with 2 show ?case by (rule Cons.IH)
qed

lemma packet_offsets_items:
  "packet_offsets M pk = (e, pk') \<Longrightarrow> map items pk' = map items pk"
proof (induction pk arbitrary: e pk')
  case Nil
  then show ?case by simp
next
  case (Cons p ps)
  obtain e1 p1 where 1: "part_offsets M p (items p) 0 = (e1, p1)"
    by (cases "part_offsets M p (items p) 0") auto
  then have l: "items p1 = items p" by (simp add: part_offsets_VarRequest)
  show ?case
  proof (cases e1)
    case None
    obtain e2 ps2 where 2: "packet_offsets M ps = (e2, ps2)" by (cases "packet_offsets M ps") auto
    with Cons.IH have "map items ps2 = map items ps" by simp
    with Cons.prems 1 2 None l show ?thesis by auto
  next
    case (Some a)
    with Cons.prems 1 l show ?thesis by auto
  qed
qed

lemma plan_offsets_items:
  "plan_offsets M pks = (e, pks') \<Longrightarrow> map (map items) pks' = map (map items) pks"
proof (induction pks arbitrary: e pks')
  case Nil
  then show ?case by simp
next
  case (Cons pk rest)
  obtain e1 pk1 where 1: "packet_offsets M pk = (e1, pk1)" by (cases "packet_offsets M pk") auto
  then have f: "map items pk1 = map items pk" by (rule packet_offsets_items)
  show ?case
  proof (cases e1)
    case None
    obtain e2 r2 where 2: "plan_offsets M rest = (e2, r2)" by (cases "plan_offsets M rest") auto
    with Cons.IH have "map (map items) r2 = map (map items) rest" by simp
    with Cons.prems 1 2 None f show ?thesis by auto
  next
    case (Some a)
    with Cons.prems 1 f show ?thesis by auto
  qed
qed

lemma chains_as_items:
  "list_all (\<lambda>pk. list_all (\<lambda>p. R (items p)) pk) pks = list_all (list_all R) (map (map items) pks)"
  by (simp add: list.pred_map comp_def)

lemma chains_of_items:
  assumes "map (map items) pks' = map (map items) pks"
    and "list_all (\<lambda>pk. list_all (\<lambda>p. successively R (items p)) pk) pks"
  shows "list_all (\<lambda>pk. list_all (\<lambda>p. successively R (items p)) pk) pks'"
  using assms by (simp add: chains_as_items)

lemma init_chain_inv: "chain_inv g init_plan_state"
  by (simp add: chain_inv_def init_plan_state_def)

lemma prepareReadPackets_chains:
  assumes "prepareReadPackets M g = Some (None, g')" and "readPackets g' = Some plan"
  shows "list_all (\<lambda>pk. list_all (\<lambda>p. successively (coalescable g) (items p)) pk) plan"
proof -
  from assms(1) obtain ep pdu where ep: "endpoint g = Some ep" "pduSize ep = Some pdu" "pdu \<noteq> 0"
    by (auto simp: prepareReadPackets_def split: option.splits if_splits)
  show ?thesis
  proof (cases "map snd (group_items g) = []")
    case True
    with assms ep show ?thesis
      by (auto simp: prepareReadPackets_def)
  next
    case False
    let ?r = "items_loop (pdu - 18) g (array_sort itemListSorter (map snd (group_items g))) init_plan_state"
    from assms False ep have "?r \<noteq> None"
      by (auto simp: prepareReadPackets_def split: option.splits)
    then obtain st where 1: "?r = Some st" by blast
    obtain e2 pks where 2: "plan_offsets M (packets st) = (e2, pks)"
      by (cases "plan_offsets M (packets st)") auto
    from assms False ep 1 2 have "pks = plan"
      by (auto simp: prepareReadPackets_def)
    from 1 init_chain_inv have "chain_inv g st" by (rule items_loop_chain)
    then have "list_all (\<lambda>pk. pk \<noteq> [] \<and> list_all (part_chain g) pk) (packets st)"
      by (simp add: chain_inv_def)
    then have "list_all (\<lambda>pk. list_all (\<lambda>p. successively (coalescable g) (items p)) pk) (packets st)"
      by (auto simp: list_all_iff part_chain_def)
    with plan_offsets_items [OF 2] \<open>pks = plan\<close> show ?thesis
      by (blast intro: chains_of_items)
  qed
qed


lemma sort_two_DB_BYTE:
  assumes "is_DB_BYTE a 1 0" "is_DB_BYTE b 1 3"
  shows "array_sort itemListSorter [a, b] = [a, b]" "array_sort itemListSorter [b, a] = [a, b]"
  using assms by (simp_all add: array_sort_def itemListSorter_def is_DB_BYTE_def js_lt_def js_gt_def)

lemma plan_two_DB_BYTE:
  assumes "is_DB_BYTE a 1 0" "is_DB_BYTE b 1 3" "22 \<le> mx"
    and "\<not> skipOptimization g" "optimizationGap g = 5"
  shows "items_loop mx g [a, b] init_plan_state
         = Some \<lparr> packets = [[(new_part a 0 4)\<lparr> items := [a, b] \<rparr>]], packet = True, part = True,
                  pktReqLength = 24, pktResLength = 22, lastItem = Some b \<rparr>"
proof -
  have 1: "item_loop mx g a 1 0 init_plan_state = Some (open_packet a 0 1 init_plan_state)"
    using assms
    by (subst item_loop.simps)
       (simp add: place_item_def init_plan_state_def resHeaderSize_def resPartSize_def)
  have 2: "item_loop mx g b 1 3 ((open_packet a 0 1 init_plan_state)\<lparr> lastItem := Some a \<rparr>)
           = Some (grow_part b 3 ((open_packet a 0 1 init_plan_state)\<lparr> lastItem := Some a \<rparr>))"
    using assms
    by (subst item_loop.simps)
       (simp add: place_item_def init_plan_state_def resHeaderSize_def resPartSize_def
          reqHeaderSize_def reqPartSize_def open_packet_def cur_part_def new_part_def
          isOptimizable_def is_DB_BYTE_def area_DB_def)
  from assms(1,2) have f: "byteLength a = 1" "offset a = 0" "byteLength b = 1" "offset b = 3"
    by (simp_all add: is_DB_BYTE_def)
  show ?thesis
    by (simp add: f 1 2)
       (simp add: grow_part_def open_packet_def init_plan_state_def new_part_def
          resHeaderSize_def resPartSize_def reqHeaderSize_def reqPartSize_def)
qed

lemma offsets_two_DB_BYTE:
  assumes "getCopyBufferOffsets M a 0 4 = Some oa" "getCopyBufferOffsets M b 0 4 = Some ob"
  shows "plan_offsets M [[(new_part a 0 4)\<lparr> items := [a, b] \<rparr>]]
         = (None, [[\<lparr> area = areaCode a, db = dbNumber a, transport = readTransportCode a,
                     address = 0, length' = 4, items = [a, b], offsets = [oa, ob] \<rparr>]])"
  using assms by (simp add: new_part_def array_set_def)

lemma prepare_two_DB_BYTE:
  assumes "endpoint g = Some ep" "pduSize ep = Some pdu" "40 \<le> pdu"
    and "\<not> skipOptimization g" "optimizationGap g = 5"
    and "map snd (group_items g) = [a, b] \<or> map snd (group_items g) = [b, a]"
    and "is_DB_BYTE a 1 0" "is_DB_BYTE b 1 3"
    and "getCopyBufferOffsets M a 0 4 = Some oa" "getCopyBufferOffsets M b 0 4 = Some ob"
  shows "prepareReadPackets M g
         = Some (None, g\<lparr> readPackets :=
              Some [[\<lparr> area = area_DB, db = Some 1, transport = readTransportCode a,
                      address = 0, length' = 4, items = [a, b], offsets = [oa, ob] \<rparr>]] \<rparr>)"
proof -
  from assms(6-8) have s: "array_sort itemListSorter (map snd (group_items g)) = [a, b]"
    by (auto simp: sort_two_DB_BYTE)
  from assms(6) have ne: "group_items g \<noteq> []" by auto
  from assms(3) have mx: "22 \<le> pdu - 18" and nz: "pdu \<noteq> 0" by simp_all
  note loop = plan_two_DB_BYTE [OF assms(7,8) mx assms(4,5)]
  note offs = offsets_two_DB_BYTE [OF assms(9,10)]
  from assms(7) have f: "areaCode a = area_DB" "dbNumber a = Some 1" by (simp_all add: is_DB_BYTE_def)
  show ?thesis
    unfolding prepareReadPackets_def
    by (simp add: assms(1,2) nz ne s loop offs f del: items_loop.simps plan_offsets.simps)
qed


text \<open>
  C4. With the two items \<^verbatim>\<open>DB1,BYTE0\<close> and \<^verbatim>\<open>DB1,BYTE3\<close> (in either order of insertion), a
  gap of 5, optimization on and a pdu size of at least 40, the planner produces one
  packet with one part: area DB, db 1, address 0, length 4, serving both items. And in
  every plan the planner produces, two neighbours in a part's list of items have the
  same area code, an area among DB, inputs, outputs and flags, the same db number, and
  \<open>|b.offset - (a.offset + a.byteLength)|\<close> below the optimization gap.
\<close>

theorem C4_coalesce:
  "(\<forall>M g ep pdu a b oa ob.
      endpoint g = Some ep \<and> pduSize ep = Some pdu \<and> 40 \<le> pdu
      \<and> \<not> skipOptimization g \<and> optimizationGap g = 5
      \<and> (map snd (group_items g) = [a, b] \<or> map snd (group_items g) = [b, a])
      \<and> is_DB_BYTE a 1 0 \<and> is_DB_BYTE b 1 3
      \<and> getCopyBufferOffsets M a 0 4 = Some oa \<and> getCopyBufferOffsets M b 0 4 = Some ob
      \<longrightarrow> prepareReadPackets M g
          = Some (None, g\<lparr> readPackets :=
               Some [[\<lparr> area = area_DB, db = Some 1, transport = readTransportCode a,
                       address = 0, length' = 4, items = [a, b], offsets = [oa, ob] \<rparr>]] \<rparr>))
   \<and> (\<forall>M g g' plan.
      prepareReadPackets M g = Some (None, g') \<and> readPackets g' = Some plan
      \<longrightarrow> list_all (\<lambda>pk. list_all (\<lambda>p. successively (coalescable g) (items p)) pk) plan)"
proof (intro conjI allI impI)
  fix M :: "'a S7Item_methods" and g :: "'a S7ItemGroup" and ep pdu a b oa ob
  assume "endpoint g = Some ep \<and> pduSize ep = Some pdu \<and> 40 \<le> pdu
      \<and> \<not> skipOptimization g \<and> optimizationGap g = 5
      \<and> (map snd (group_items g) = [a, b] \<or> map snd (group_items g) = [b, a])
      \<and> is_DB_BYTE a 1 0 \<and> is_DB_BYTE b 1 3
      \<and> getCopyBufferOffsets M a 0 4 = Some oa \<and> getCopyBufferOffsets M b 0 4 = Some ob"
  then show "prepareReadPackets M g
          = Some (None, g\<lparr> readPackets :=
               Some [[\<lparr> area = area_DB, db = Some 1, transport = readTransportCode a,
                       address = 0, length' = 4, items = [a, b], offsets = [oa, ob] \<rparr>]] \<rparr>)"
    by (intro prepare_two_DB_BYTE) blast+
next
  fix M :: "'b S7Item_methods" and g g' :: "'b S7ItemGroup" and plan
  assume "prepareReadPackets M g = Some (None, g') \<and> readPackets g' = Some plan"
  then show "list_all (\<lambda>pk. list_all (\<lambda>p. successively (coalescable g) (items p)) pk) plan"
    by (blast intro: prepareReadPackets_chains)
qed

theorem C4_coalesce_witness:
  "prepareReadPackets ex_methods
      (ex_group 240 [ex_item ''DB1,BYTE0'' ''DB'' area_DB (Some 1) 0 1,
                     ex_item ''DB1,BYTE3'' ''DB'' area_DB (Some 1) 3 1])
   = Some (None,
       (ex_group 240 [ex_item ''DB1,BYTE0'' ''DB'' area_DB (Some 1) 0 1,
                      ex_item ''DB1,BYTE3'' ''DB'' area_DB (Some 1) 3 1])
       \<lparr> readPackets :=
           Some [[\<lparr> area = area_DB, db = Some 1, transport = transport_BYTE,
                   address = 0, length' = 4,
                   items = [ex_item ''DB1,BYTE0'' ''DB'' area_DB (Some 1) 0 1,
                            ex_item ''DB1,BYTE3'' ''DB'' area_DB (Some 1) 3 1],
                   offsets = [\<lparr> sourceOffset = 0, destOffset = 0, byteCount = 1 \<rparr>,
                              \<lparr> sourceOffset = 3, destOffset = 0, byteCount = 1 \<rparr>] \<rparr>]] \<rparr>)
   \<and> coalescable
       (ex_group 240 [ex_item ''DB1,BYTE0'' ''DB'' area_DB (Some 1) 0 1,
                      ex_item ''DB1,BYTE3'' ''DB'' area_DB (Some 1) 3 1])
       (ex_item ''DB1,BYTE0'' ''DB'' area_DB (Some 1) 0 1)
       (ex_item ''DB1,BYTE3'' ''DB'' area_DB (Some 1) 3 1)"
proof -
  let ?a = "ex_item ''DB1,BYTE0'' ''DB'' area_DB (Some 1) 0 1"
  let ?b = "ex_item ''DB1,BYTE3'' ''DB'' area_DB (Some 1) 3 1"
  let ?g = "ex_group 240 [?a, ?b]"
  let ?oa = "\<lparr> sourceOffset = 0, destOffset = 0, byteCount = 1 \<rparr>"
  let ?ob = "\<lparr> sourceOffset = 3, destOffset = 0, byteCount = 1 \<rparr>"
  let ?plan = "[[\<lparr> area = area_DB, db = Some 1, transport = readTransportCode ?a,
                   address = 0, length' = 4, items = [?a, ?b], offsets = [?oa, ?ob] \<rparr>]]"
  have h: "endpoint ?g = Some (ex_endpoint 240) \<and> pduSize (ex_endpoint 240) = Some 240 \<and> (40::int) \<le> 240
      \<and> \<not> skipOptimization ?g \<and> optimizationGap ?g = 5
      \<and> (map snd (group_items ?g) = [?a, ?b] \<or> map snd (group_items ?g) = [?b, ?a])
      \<and> is_DB_BYTE ?a 1 0 \<and> is_DB_BYTE ?b 1 3
      \<and> getCopyBufferOffsets ex_methods ?a 0 4 = Some ?oa
      \<and> getCopyBufferOffsets ex_methods ?b 0 4 = Some ?ob"
    by (simp add: ex_group_def new_S7ItemGroup_def ex_endpoint_def ex_item_def is_DB_BYTE_def
        ex_methods_def spec_getCopyBufferOffsets_def)
  have run: "prepareReadPackets ex_methods ?g = Some (None, ?g\<lparr> readPackets := Some ?plan \<rparr>)"
    by (rule C4_coalesce [THEN conjunct1, rule_format, OF h])
  have "prepareReadPackets ex_methods ?g = Some (None, ?g\<lparr> readPackets := Some ?plan \<rparr>)
        \<and> readPackets (?g\<lparr> readPackets := Some ?plan \<rparr>) = Some ?plan"
    using run by simp
  then have "list_all (\<lambda>pk. list_all (\<lambda>p. successively (coalescable ?g) (items p)) pk) ?plan"
    by (rule C4_coalesce [THEN conjunct2, rule_format])
  then have "coalescable ?g ?a ?b" by simp
  moreover have "readTransportCode ?a = transport_BYTE" by (simp add: ex_item_def)
  ultimately show ?thesis using run by simp
qed

section \<open>C7: the order of the sort and replanning\<close>

lemma sorter_key:
  assumes "item_wf a" "item_wf b"
  shows "(itemListSorter a b < 0) = (item_key a < item_key b)"
    and "(itemListSorter a b = 0) = (item_key a = item_key b)"
    and "(itemListSorter a b > 0) = (item_key a > item_key b)"
  using assms
  by (auto simp: itemListSorter_def item_key_def item_wf_def js_lt_def js_gt_def
      split: option.splits if_splits)

lemma sorter_le_key:
  assumes "item_wf a" "item_wf b"
  shows "(itemListSorter a b \<le> 0) = (item_key a \<le> item_key b)"
  using sorter_key [OF assms] by (auto simp: le_less)

lemma sort_insert_insort:
  "item_wf x \<Longrightarrow> list_all item_wf ys \<Longrightarrow> sort_insert itemListSorter x ys = insort_key item_key x ys"
  by (induction ys) (simp_all add: sorter_le_key)

lemma insort_wf: "item_wf x \<Longrightarrow> list_all item_wf ys \<Longrightarrow> list_all item_wf (insort_key item_key x ys)"
  by (simp add: list_all_iff set_insort_key)

lemma array_sort_sort_key:
  "list_all item_wf xs \<Longrightarrow> array_sort itemListSorter xs = sort_key item_key xs
     \<and> list_all item_wf (sort_key item_key xs)"
proof (induction xs)
  case Nil
  then show ?case by (simp add: array_sort_def)
next
  case (Cons x xs)
  then have ih: "foldr (sort_insert itemListSorter) xs [] = sort_key item_key xs"
    and wf: "list_all item_wf (sort_key item_key xs)" and x: "item_wf x"
    by (simp_all add: array_sort_def)
  from x wf have "sort_insert itemListSorter x (sort_key item_key xs)
                  = insort_key item_key x (sort_key item_key xs)"
    by (rule sort_insert_insort)
  with ih x wf show ?case
    by (simp add: array_sort_def sort_key_def insort_wf)
qed


lemma isOptimizable_readPackets:
  "isOptimizable (g\<lparr> readPackets := x \<rparr>) a b = isOptimizable g a b"
  by (simp add: isOptimizable_def cong: option.case_cong)

lemma place_item_readPackets:
  "place_item mx (g\<lparr> readPackets := x \<rparr>) item len off st = place_item mx g item len off st"
  by (simp add: place_item_def Let_def isOptimizable_readPackets cong: if_cong)

lemma item_loop_transfer:
  assumes same: "\<And>item len off st. place_item mx g' item len off st = place_item mx g item len off st"
    and run: "item_loop mx g' item len off st = Some y"
  shows "item_loop mx g item len off st = Some y"
proof -
  have "mx = mx \<and> g' = g' \<longrightarrow> item_loop mx g item len off st = Some y"
  proof (rule item_loop.raw_induct
      [where P = "\<lambda>mx0 g0 item len off st y.
                    mx0 = mx \<and> g0 = g' \<longrightarrow> item_loop mx g item len off st = Some y", OF _ run])
    fix loop :: "int \<Rightarrow> 'a S7ItemGroup \<Rightarrow> 'a S7Item \<Rightarrow> int \<Rightarrow> int \<Rightarrow> 'a plan_state \<Rightarrow> 'a plan_state option"
    fix mx0 g0 item len off st y
    assume IH: "\<And>mx0 g0 item len off st y.
        loop mx0 g0 item len off st = Some y
        \<Longrightarrow> mx0 = mx \<and> g0 = g' \<longrightarrow> item_loop mx g item len off st = Some y"
    assume eq: "(case place_item mx0 g0 item len off st of
        (itemComplete, itemLength', itemOffset', st') \<Rightarrow>
          if itemComplete then Some st'
          else loop mx0 g0 item itemLength' itemOffset' (st'\<lparr> packet := False, part := False \<rparr>))
        = Some y"
    show "mx0 = mx \<and> g0 = g' \<longrightarrow> item_loop mx g item len off st = Some y"
    proof
      assume "mx0 = mx \<and> g0 = g'"
      then have m: "mx0 = mx" and g: "g0 = g'" by simp_all
      obtain c len' off' st1 where p: "place_item mx g item len off st = (c, len', off', st1)"
        by (cases "place_item mx g item len off st") auto
      with same have p': "place_item mx g' item len off st = (c, len', off', st1)" by simp
      show "item_loop mx g item len off st = Some y"
      proof (cases c)
        case True
        with eq p' m g have "y = st1" by simp
        with True p show ?thesis by (subst item_loop.simps) simp
      next
        case False
        with eq p' m g
        have "loop mx g' item len' off' (st1\<lparr> packet := False, part := False \<rparr>) = Some y"
          by simp
        from IH [OF this]
        have "item_loop mx g item len' off' (st1\<lparr> packet := False, part := False \<rparr>) = Some y"
          by simp
        with False p show ?thesis by (subst item_loop.simps) simp
      qed
    qed
  qed
  then show ?thesis by simp
qed

lemma item_loop_readPackets:
  "item_loop mx (g\<lparr> readPackets := x \<rparr>) item len off st = item_loop mx g item len off st"
proof (cases "item_loop mx (g\<lparr> readPackets := x \<rparr>) item len off st")
  case (Some y)
  then have "item_loop mx g item len off st = Some y"
    by (rule item_loop_transfer [rotated]) (rule place_item_readPackets)
  with Some show ?thesis by simp
next
  case None
  show ?thesis
  proof (cases "item_loop mx g item len off st")
    case (Some y)
    then have "item_loop mx (g\<lparr> readPackets := x \<rparr>) item len off st = Some y"
      by (rule item_loop_transfer [rotated]) (rule place_item_readPackets [symmetric])
    with None show ?thesis by simp
  next
    case n: None
    with None show ?thesis by simp
  qed
qed

lemma items_loop_readPackets:
  "items_loop mx (g\<lparr> readPackets := x \<rparr>) its st = items_loop mx g its st"
  by (induction its arbitrary: st) (simp_all add: item_loop_readPackets cong: option.case_cong)

lemma prepareReadPackets_readPackets:
  "prepareReadPackets M g = Some (None, g1)
   \<Longrightarrow> prepareReadPackets M (g\<lparr> readPackets := x \<rparr>) = Some (None, g1)"
  by (auto simp: prepareReadPackets_def items_loop_readPackets
      split: option.splits if_splits prod.splits)

lemma prepareReadPackets_result:
  "prepareReadPackets M g = Some (None, g1) \<Longrightarrow> \<exists>pks. g1 = g\<lparr> readPackets := Some pks \<rparr>"
  by (auto simp: prepareReadPackets_def split: option.splits if_splits prod.splits)

lemma replan_same:
  assumes "prepareReadPackets M g = Some (None, g1)"
  shows "prepareReadPackets M (invalidateReadPackets g1) = Some (None, g1)"
proof -
  from assms obtain pks where g1: "g1 = g\<lparr> readPackets := Some pks \<rparr>"
    by (blast dest: prepareReadPackets_result)
  then have "invalidateReadPackets g1 = g\<lparr> readPackets := None \<rparr>"
    by (simp add: invalidateReadPackets_def)
  with prepareReadPackets_readPackets [OF assms, of None] show ?thesis by simp
qed

text \<open>
  C7. On items of the data model (\<open>item_wf\<close>) the comparison function of the planner's
  sort is the lexicographic order of the keys (area code; db number when the address
  type is DB; byte offset; bit offset; byte length descending), a total order on the
  keys: it is negative, zero or positive exactly when the first key is less than, equal
  to or greater than the second. The sort therefore is the stable sort by that key: its
  result is sorted by key and is a permutation of the items. And planning again after an
  invalidation, from the same item set, yields the same plan.
\<close>

theorem C7_sort_order:
  "(\<forall>a b :: 'v S7Item. item_wf a \<and> item_wf b \<longrightarrow>
       (itemListSorter a b < 0) = (item_key a < item_key b)
     \<and> (itemListSorter a b = 0) = (item_key a = item_key b)
     \<and> (0 < itemListSorter a b) = (item_key b < item_key a))
   \<and> (\<forall>xs :: 'v S7Item list. list_all item_wf xs \<longrightarrow>
       array_sort itemListSorter xs = sort_key item_key xs
     \<and> sorted (map item_key (array_sort itemListSorter xs))
     \<and> mset (array_sort itemListSorter xs) = mset xs)
   \<and> (\<forall>M (g :: 'v S7ItemGroup) g1. prepareReadPackets M g = Some (None, g1) \<longrightarrow>
       prepareReadPackets M (invalidateReadPackets g1) = Some (None, g1))"
proof (intro conjI allI impI)
  fix a b :: "'v S7Item"
  assume "item_wf a \<and> item_wf b"
  then have wf: "item_wf a" "item_wf b" by simp_all
  show "(itemListSorter a b < 0) = (item_key a < item_key b)" by (rule sorter_key(1) [OF wf])
  show "(itemListSorter a b = 0) = (item_key a = item_key b)" by (rule sorter_key(2) [OF wf])
  show "(0 < itemListSorter a b) = (item_key b < item_key a)" by (rule sorter_key(3) [OF wf])
next
  fix xs :: "'v S7Item list"
  assume wf: "list_all item_wf xs"
  then show eq: "array_sort itemListSorter xs = sort_key item_key xs"
    by (simp add: array_sort_sort_key)
  show "sorted (map item_key (array_sort itemListSorter xs))" by (simp add: eq)
  show "mset (array_sort itemListSorter xs) = mset xs" by (simp add: eq)
next
  fix M and g g1 :: "'v S7ItemGroup"
  assume "prepareReadPackets M g = Some (None, g1)"
  then show "prepareReadPackets M (invalidateReadPackets g1) = Some (None, g1)"
    by (rule replan_same)
qed

theorem C7_sort_order_witness:
  "0 < itemListSorter (ex_item ''DB1,BYTE3'' ''DB'' area_DB (Some 1) 3 1)
                      (ex_item ''DB1,BYTE0'' ''DB'' area_DB (Some 1) 0 1)
   \<and> array_sort itemListSorter
        [ex_item ''DB1,BYTE3'' ''DB'' area_DB (Some 1) 3 1,
         ex_item ''DB1,BYTE0'' ''DB'' area_DB (Some 1) 0 1]
      = [ex_item ''DB1,BYTE0'' ''DB'' area_DB (Some 1) 0 1,
         ex_item ''DB1,BYTE3'' ''DB'' area_DB (Some 1) 3 1]
   \<and> prepareReadPackets ex_methods
        (invalidateReadPackets
          ((ex_group 240 [ex_item ''DB1,BYTE3'' ''DB'' area_DB (Some 1) 3 1,
                          ex_item ''DB1,BYTE0'' ''DB'' area_DB (Some 1) 0 1])
           \<lparr> readPackets :=
               Some [[\<lparr> area = area_DB, db = Some 1, transport = transport_BYTE,
                       address = 0, length' = 4,
                       items = [ex_item ''DB1,BYTE0'' ''DB'' area_DB (Some 1) 0 1,
                                ex_item ''DB1,BYTE3'' ''DB'' area_DB (Some 1) 3 1],
                       offsets = [\<lparr> sourceOffset = 0, destOffset = 0, byteCount = 1 \<rparr>,
                                  \<lparr> sourceOffset = 3, destOffset = 0, byteCount = 1 \<rparr>] \<rparr>]] \<rparr>))
      = Some (None,
          (ex_group 240 [ex_item ''DB1,BYTE3'' ''DB'' area_DB (Some 1) 3 1,
                         ex_item ''DB1,BYTE0'' ''DB'' area_DB (Some 1) 0 1])
           \<lparr> readPackets :=
               Some [[\<lparr> area = area_DB, db = Some 1, transport = transport_BYTE,
                       address = 0, length' = 4,
                       items = [ex_item ''DB1,BYTE0'' ''DB'' area_DB (Some 1) 0 1,
                                ex_item ''DB1,BYTE3'' ''DB'' area_DB (Some 1) 3 1],
                       offsets = [\<lparr> sourceOffset = 0, destOffset = 0, byteCount = 1 \<rparr>,
                                  \<lparr> sourceOffset = 3, destOffset = 0, byteCount = 1 \<rparr>] \<rparr>]] \<rparr>)"
proof -
  let ?a = "ex_item ''DB1,BYTE0'' ''DB'' area_DB (Some 1) 0 1"
  let ?b = "ex_item ''DB1,BYTE3'' ''DB'' area_DB (Some 1) 3 1"
  let ?g = "ex_group 240 [?b, ?a]"
  let ?oa = "\<lparr> sourceOffset = 0, destOffset = 0, byteCount = 1 \<rparr>"
  let ?ob = "\<lparr> sourceOffset = 3, destOffset = 0, byteCount = 1 \<rparr>"
  let ?plan = "[[\<lparr> area = area_DB, db = Some 1, transport = transport_BYTE,
                   address = 0, length' = 4, items = [?a, ?b], offsets = [?oa, ?ob] \<rparr>]]"
  have wf: "item_wf ?b \<and> item_wf ?a"
    by (simp add: item_wf_def ex_item_def)
  have k: "item_key ?a < item_key ?b"
    by (simp add: item_key_def ex_item_def)
  from C7_sort_order [THEN conjunct1, rule_format, OF wf] k
  have 1: "0 < itemListSorter ?b ?a" by simp
  have wfs: "list_all item_wf [?b, ?a]" using wf by simp
  from C7_sort_order [THEN conjunct2, THEN conjunct1, rule_format, OF wfs]
  have "array_sort itemListSorter [?b, ?a] = sort_key item_key [?b, ?a]" by simp
  also have "\<dots> = [?a, ?b]" using k by (simp add: sort_key_def not_le)
  finally have 2: "array_sort itemListSorter [?b, ?a] = [?a, ?b]" .
  have run: "prepareReadPackets ex_methods ?g = Some (None, ?g\<lparr> readPackets := Some ?plan \<rparr>)"
  proof -
    have "prepareReadPackets ex_methods ?g
          = Some (None, ?g\<lparr> readPackets :=
              Some [[\<lparr> area = area_DB, db = Some 1, transport = readTransportCode ?a,
                      address = 0, length' = 4, items = [?a, ?b], offsets = [?oa, ?ob] \<rparr>]] \<rparr>)"
      by (rule prepare_two_DB_BYTE [where ep = "ex_endpoint 240" and pdu = 240])
         (simp_all add: ex_group_def new_S7ItemGroup_def ex_endpoint_def ex_item_def is_DB_BYTE_def
            ex_methods_def spec_getCopyBufferOffsets_def)
    then show ?thesis by (simp add: ex_item_def)
  qed
  from C7_sort_order [THEN conjunct2, THEN conjunct2, rule_format, OF run]
  have 3: "prepareReadPackets ex_methods (invalidateReadPackets (?g\<lparr> readPackets := Some ?plan \<rparr>))
           = Some (None, ?g\<lparr> readPackets := Some ?plan \<rparr>)" .
  from 1 2 3 show ?thesis by blast
qed

section \<open>C3: reading an area in slices\<close>

lemma slice_count_gt:
  assumes "0 < mp" "int k * mp < len"
  shows "k < slice_count len mp"
proof -
  from assms have "(int k + 1) * mp \<le> len + mp - 1" by (simp add: algebra_simps)
  then have "((int k + 1) * mp) div mp \<le> (len + mp - 1) div mp"
    by (rule zdiv_mono1) (rule assms(1))
  with assms(1) have "int k + 1 \<le> (len + mp - 1) div mp" by simp
  then show ?thesis by (simp add: slice_count_def)
qed

lemma slice_count_le:
  assumes "0 < mp" "\<not> int k * mp < len"
  shows "slice_count len mp \<le> k"
proof -
  from assms have lt: "len + mp - 1 < (int k + 1) * mp" by (simp add: algebra_simps)
  have "(len + mp - 1) div mp < int k + 1"
  proof (rule ccontr)
    assume "\<not> (len + mp - 1) div mp < int k + 1"
    then have "int k + 1 \<le> (len + mp - 1) div mp" by simp
    with assms(1) have "(int k + 1) * mp \<le> ((len + mp - 1) div mp) * mp"
      by (simp add: mult_right_mono)
    also have "\<dots> \<le> len + mp - 1"
      using pos_mod_sign [OF assms(1), of "len + mp - 1"] div_mult_mod_eq [of "len + mp - 1" mp]
      by linarith
    finally show False using lt by simp
  qed
  then show ?thesis by (simp add: slice_count_def)
qed


lemma readArea_loop_slices:
  assumes mp: "0 < mp"
  shows "readArea_loop a d addr len mp (int k * mp) reqs
         = Some (reqs @ map (readArea_slice a d addr len mp) [k..<slice_count len mp])"
proof (induction "slice_count len mp - k" arbitrary: k reqs)
  case 0
  then have le: "slice_count len mp \<le> k" by simp
  have "\<not> int k * mp < len"
  proof
    assume "int k * mp < len"
    with mp have "k < slice_count len mp" by (rule slice_count_gt)
    with le show False by simp
  qed
  with le show ?case by (subst readArea_loop.simps) simp
next
  case (Suc n)
  then have lt: "k < slice_count len mp" by simp
  have cond: "int k * mp < len"
  proof (rule ccontr)
    assume "\<not> int k * mp < len"
    with mp have "slice_count len mp \<le> k" by (rule slice_count_le)
    with lt show False by simp
  qed
  from Suc.hyps(2) have n: "n = slice_count len mp - Suc k" by simp
  have next_ptr: "int k * mp + mp = int (Suc k) * mp" by (simp add: algebra_simps)
  have up: "[k..<slice_count len mp] = k # [Suc k..<slice_count len mp]"
    using lt by (simp add: upt_conv_Cons)
  show ?case
    by (subst readArea_loop.simps)
       (simp add: cond next_ptr Suc.hyps(1) [OF n] up readArea_slice_def del: of_nat_Suc)
qed

lemma readArea_loop_total:
  "0 < mp \<Longrightarrow> readArea_loop a d addr len mp 0 [] = Some (readArea_slices a d addr len mp)"
  using readArea_loop_slices [of mp a d addr len 0 "[]"] by (simp add: readArea_slices_def)

lemma slices_sum:
  assumes mp: "0 < mp"
  shows "int k * mp \<le> len \<Longrightarrow>
         sum_list (map (\<lambda>i. length' (readArea_slice a d addr len mp i)) [k..<slice_count len mp])
         = len - int k * mp"
proof (induction "slice_count len mp - k" arbitrary: k)
  case 0
  then have le: "slice_count len mp \<le> k" by simp
  have "\<not> int k * mp < len"
  proof
    assume "int k * mp < len"
    with mp have "k < slice_count len mp" by (rule slice_count_gt)
    with le show False by simp
  qed
  with "0.prems" le show ?case by simp
next
  case (Suc n)
  then have lt: "k < slice_count len mp" by simp
  have cond: "int k * mp < len"
  proof (rule ccontr)
    assume "\<not> int k * mp < len"
    with mp have "slice_count len mp \<le> k" by (rule slice_count_le)
    with lt show False by simp
  qed
  from Suc.hyps(2) have n: "n = slice_count len mp - Suc k" by simp
  have up: "[k..<slice_count len mp] = k # [Suc k..<slice_count len mp]"
    using lt by (simp add: upt_conv_Cons)
  show ?case
  proof (cases "int (Suc k) * mp \<le> len")
    case True
    from Suc.hyps(1) [OF n True] True show ?thesis
      by (simp add: up readArea_slice_def algebra_simps)
  next
    case False
    then have "\<not> int (Suc k) * mp < len" by simp
    with mp have "slice_count len mp \<le> Suc k" by (rule slice_count_le)
    then have e: "[Suc k..<slice_count len mp] = []" by simp
    from False cond show ?thesis
      by (simp add: up e readArea_slice_def algebra_simps)
  qed
qed

lemma int_length_concat:
  "int (length (concat xss)) = sum_list (map (\<lambda>xs. int (length xs)) xss)"
  by (induction xss) simp_all

lemma readArea_results_find:
  "list_all (\<lambda>res. length res = 1) results \<Longrightarrow>
   readArea_results results acc
   = (case find (\<lambda>res. returnCode (hd res) \<noteq> retval_DATA_OK) results of
        None \<Rightarrow> Inr (acc @ map (\<lambda>res. data (hd res)) results)
      | Some res \<Rightarrow> Inl (NodeS7Error (RetCode (returnCode (hd res))) NoInfo))"
proof (induction results arbitrary: acc)
  case Nil
  then show ?case by simp
next
  case (Cons res results)
  then obtain r where r: "res = [r]" by (cases res) auto
  with Cons show ?case by (simp split: option.splits)
qed


text \<open>
  With a pdu size of at most 18 the step \<open>pduSize - 18\<close> of the loop is not positive, and
  for a length above 0 the loop never ends: the call neither resolves nor rejects, and
  issues no job.
\<close>

lemma readArea_loop_diverges:
  assumes "maxPayload \<le> 0" and "ptr < len"
  shows "readArea_loop a d addr len maxPayload ptr reqs = None"
proof (rule ccontr)
  assume "readArea_loop a d addr len maxPayload ptr reqs \<noteq> None"
  then obtain res where run: "readArea_loop a d addr len maxPayload ptr reqs = Some res" by auto
  have "\<not> (maxPayload \<le> 0 \<and> ptr < len)"
  proof (rule readArea_loop.raw_induct
      [where P = "\<lambda>a d addr len mp ptr reqs res. \<not> (mp \<le> 0 \<and> ptr < len)", OF _ run])
    fix f a d addr len mp ptr reqs res
    assume IH: "\<And>a d addr len mp ptr reqs res.
        f a d addr len mp ptr reqs = Some res \<Longrightarrow> \<not> (mp \<le> 0 \<and> ptr < len)"
      and body: "(if ptr < len then
           f a d addr len mp (ptr + mp)
             (reqs @ [\<lparr> area = a, db = d, transport = transport_BYTE,
                        address = addr + ptr, length' = min (len - ptr) mp \<rparr>])
         else Some reqs) = Some res"
    show "\<not> (mp \<le> 0 \<and> ptr < len)"
    proof
      assume h: "mp \<le> 0 \<and> ptr < len"
      with body have "f a d addr len mp (ptr + mp)
             (reqs @ [\<lparr> area = a, db = d, transport = transport_BYTE,
                        address = addr + ptr, length' = min (len - ptr) mp \<rparr>]) = Some res"
        by simp
      from IH [OF this] h show False by simp
    qed
  qed
  with assms show False by simp
qed

theorem C3_counterexample:
  "connectionState (ex_endpoint 18) = CONN_CONNECTED
   \<and> readArea ex_connection (ex_endpoint 18) area_DB 0 1 (Some 1) [] = None"
  by (simp add: readArea_def ex_endpoint_def pduSize_number_def readArea_loop_diverges)

text \<open>
  C3. On a connected endpoint with a pdu size above 18 and for a length of at least 0,
  \<^verbatim>\<open>readArea\<close> builds exactly the slices of at most \<open>pduSize - 18\<close> bytes (slice \<open>i\<close> at
  \<open>address + i \<cdot> (pduSize - 18)\<close>, of \<open>min (remaining, pduSize - 18)\<close> bytes) and issues
  each as a ReadVar job of its own, in order. When every job resolves with one result:
  if a return code is not 0xFF the call rejects with the first such code as its kind,
  otherwise it resolves to the concatenation of the payloads; and when every payload has
  the length of its slice, the result has exactly \<open>length\<close> bytes.
\<close>

theorem C3_readArea:
  assumes "connectionState ep = CONN_CONNECTED" and "pduSize ep = Some pdu" and "18 < pdu"
    and "0 \<le> len"
    and "issue_all (\<lambda>item. readVars C ep [item])
           (readArea_slices area' db' address' len (pdu - 18)) c = (promises, c')"
    and "promise_all promises = Inr results"
    and "list_all (\<lambda>res. length res = 1) results"
  shows "readArea_loop area' db' address' len (pdu - 18) 0 []
           = Some (readArea_slices area' db' address' len (pdu - 18))
       \<and> readArea C ep area' address' len db' c
           = Some ((case find (\<lambda>res. returnCode (hd res) \<noteq> retval_DATA_OK) results of
                      None \<Rightarrow> Inr (concat (map (\<lambda>res. data (hd res)) results))
                    | Some res \<Rightarrow> Inl (NodeS7Error (RetCode (returnCode (hd res))) NoInfo)), c')
       \<and> (list_all2 (\<lambda>res s. returnCode (hd res) = retval_DATA_OK
                                \<and> int (length (data (hd res))) = length' s)
              results (readArea_slices area' db' address' len (pdu - 18))
            \<longrightarrow> (\<exists>d. readArea C ep area' address' len db' c = Some (Inr d, c')
                       \<and> int (length d) = len))"
proof -
  let ?slices = "readArea_slices area' db' address' len (pdu - 18)"
  from assms(3) have mp: "0 < pdu - 18" by simp
  then have loop: "readArea_loop area' db' address' len (pdu - 18) 0 [] = Some ?slices"
    by (rule readArea_loop_total)
  have res: "readArea_results results []
      = (case find (\<lambda>res. returnCode (hd res) \<noteq> retval_DATA_OK) results of
           None \<Rightarrow> Inr (map (\<lambda>res. data (hd res)) results)
         | Some res \<Rightarrow> Inl (NodeS7Error (RetCode (returnCode (hd res))) NoInfo))"
    using readArea_results_find [OF assms(7), of "[]"] by (simp split: option.splits)
  have run: "readArea C ep area' address' len db' c
      = Some ((case find (\<lambda>res. returnCode (hd res) \<noteq> retval_DATA_OK) results of
                 None \<Rightarrow> Inr (concat (map (\<lambda>res. data (hd res)) results))
               | Some res \<Rightarrow> Inl (NodeS7Error (RetCode (returnCode (hd res))) NoInfo)), c')"
    by (simp add: readArea_def assms(1,2,5,6) pduSize_number_def loop res split: option.splits)
  have len: "\<exists>d. readArea C ep area' address' len db' c = Some (Inr d, c') \<and> int (length d) = len"
    if ok: "list_all2 (\<lambda>res s. returnCode (hd res) = retval_DATA_OK
                                \<and> int (length (data (hd res))) = length' s) results ?slices"
  proof -
    from ok have "find (\<lambda>res. returnCode (hd res) \<noteq> retval_DATA_OK) results = None"
      by (auto simp: find_None_iff list_all2_conv_all_nth in_set_conv_nth)
    with run have r: "readArea C ep area' address' len db' c
        = Some (Inr (concat (map (\<lambda>res. data (hd res)) results)), c')"
      by simp
    from ok have "map (\<lambda>res. int (length (data (hd res)))) results = map length' ?slices"
      by (auto simp: list_all2_conv_all_nth intro: nth_equalityI)
    then have "sum_list (map (\<lambda>res. int (length (data (hd res)))) results)
               = sum_list (map length' ?slices)"
      by simp
    also have "\<dots> = len"
      using slices_sum [OF mp, of 0 len area' db' address'] assms(4)
      by (simp add: readArea_slices_def comp_def)
    finally have "int (length (concat (map (\<lambda>res. data (hd res)) results))) = len"
      by (simp add: int_length_concat comp_def)
    with r show ?thesis by blast
  qed
  from loop run len show ?thesis by blast
qed

theorem C3_readArea_witness:
  "readArea ex_connection (ex_endpoint 30) area_DB 0 30 (Some 1) []
   = Some (Inr (replicate 30 0),
           [[\<lparr> area = area_DB, db = Some 1, transport = transport_BYTE, address = 0,
               length' = 12, syntax_id = syntax_S7ANY \<rparr>],
            [\<lparr> area = area_DB, db = Some 1, transport = transport_BYTE, address = 96,
               length' = 12, syntax_id = syntax_S7ANY \<rparr>],
            [\<lparr> area = area_DB, db = Some 1, transport = transport_BYTE, address = 192,
               length' = 6, syntax_id = syntax_S7ANY \<rparr>]])"
proof -
  let ?ok = "\<lambda>n. [\<lparr> returnCode = retval_DATA_OK, data = replicate n (0::nat) \<rparr>]"
  let ?log = "[[\<lparr> area = area_DB, db = Some 1, transport = transport_BYTE, address = 0,
               length' = 12, syntax_id = syntax_S7ANY \<rparr>],
            [\<lparr> area = area_DB, db = Some 1, transport = transport_BYTE, address = 96,
               length' = 12, syntax_id = syntax_S7ANY \<rparr>],
            [\<lparr> area = area_DB, db = Some 1, transport = transport_BYTE, address = 192,
               length' = 6, syntax_id = syntax_S7ANY \<rparr>]]"
  have s: "readArea_slices area_DB (Some 1) 0 30 12
           = [\<lparr> area = area_DB, db = Some 1, transport = transport_BYTE, address = 0, length' = 12 \<rparr>,
              \<lparr> area = area_DB, db = Some 1, transport = transport_BYTE, address = 12, length' = 12 \<rparr>,
              \<lparr> area = area_DB, db = Some 1, transport = transport_BYTE, address = 24, length' = 6 \<rparr>]"
    by (simp add: readArea_slices_def slice_count_def readArea_slice_def upt_rec)
  have sh: "js_shl3 12 = 96" "js_shl3 24 = 192" "js_shl3 0 = 0"
    by (simp_all add: js_shl3_def)
  have 1: "issue_all (\<lambda>item. readVars ex_connection (ex_endpoint 30) [item])
             (readArea_slices area_DB (Some 1) 0 30 (30 - 18)) []
           = ([Inr (?ok 12), Inr (?ok 12), Inr (?ok 6)], ?log)"
    by (simp add: s readVars_def ex_endpoint_def ex_connection_def s7any_def sh
        transport_BYTE_def transport_BIT_def)
  have 2: "promise_all [Inr (?ok 12), Inr (?ok 12), Inr (?ok 6)] = Inr [?ok 12, ?ok 12, ?ok 6]"
    by simp
  have 3: "list_all (\<lambda>res. length res = 1) [?ok 12, ?ok 12, ?ok 6]" by simp
  have c: "connectionState (ex_endpoint 30) = CONN_CONNECTED" "pduSize (ex_endpoint 30) = Some 30"
    by (simp_all add: ex_endpoint_def)
  from C3_readArea [OF c _ _ 1 2 3]
  have "readArea ex_connection (ex_endpoint 30) area_DB 0 30 (Some 1) []
        = Some (Inr (concat (map (\<lambda>res. data (hd res)) [?ok 12, ?ok 12, ?ok 6])), ?log)"
    by simp
  also have "concat (map (\<lambda>res. data (hd res)) [?ok 12, ?ok 12, ?ok 6]) = replicate 30 (0::nat)"
    by (simp add: replicate_add [symmetric])
  finally show ?thesis .
qed

section \<open>C2: writing an area in slices\<close>

lemma chunk_first:
  "0 < mp \<Longrightarrow> buffer_slice buf 0 (min (int (length buf) - 0) mp) = take (nat mp) buf"
  by (auto simp: buffer_slice_def adjustOffset_def min_def)

lemma chunk_later:
  assumes "0 < mp" "mp \<le> ptr" "ptr < int (length buf)"
  shows "buffer_slice buf ptr (min (int (length buf) - ptr) mp) = []"
  using assms by (auto simp: buffer_slice_def adjustOffset_def min_def)


lemma writeArea_loop_chunks:
  assumes mp: "0 < mp"
  shows "writeArea_loop bbyte a d addr buf mp (int k * mp) reqs
         = Some (reqs @ map (\<lambda>i. \<lparr> area = a, db = d, transport = transport_BYTE,
                                   address = addr + int i * mp,
                                   length' = int (length (if i = 0 then take (nat mp) buf else [])),
                                   dataTransport = bbyte,
                                   data = (if i = 0 then take (nat mp) buf else []) \<rparr>)
                          [k..<slice_count (int (length buf)) mp])"
proof (induction "slice_count (int (length buf)) mp - k" arbitrary: k reqs)
  case 0
  then have le: "slice_count (int (length buf)) mp \<le> k" by simp
  have "\<not> int k * mp < int (length buf)"
  proof
    assume "int k * mp < int (length buf)"
    with mp have "k < slice_count (int (length buf)) mp" by (rule slice_count_gt)
    with le show False by simp
  qed
  with le show ?case by (subst writeArea_loop.simps) simp
next
  case (Suc n)
  then have lt: "k < slice_count (int (length buf)) mp" by simp
  have cond: "int k * mp < int (length buf)"
  proof (rule ccontr)
    assume "\<not> int k * mp < int (length buf)"
    with mp have "slice_count (int (length buf)) mp \<le> k" by (rule slice_count_le)
    with lt show False by simp
  qed
  from Suc.hyps(2) have n: "n = slice_count (int (length buf)) mp - Suc k" by simp
  have next_ptr: "int k * mp + mp = int (Suc k) * mp" by (simp add: algebra_simps)
  have up: "[k..<slice_count (int (length buf)) mp] = k # [Suc k..<slice_count (int (length buf)) mp]"
    using lt by (simp add: upt_conv_Cons)
  have chunk: "buffer_slice buf (int k * mp) (min (int (length buf) - int k * mp) mp)
               = (if k = 0 then take (nat mp) buf else [])"
  proof (cases k)
    case 0
    with mp show ?thesis using chunk_first [of mp buf] by simp
  next
    case (Suc j)
    with mp have "mp \<le> int k * mp" by simp
    with mp cond have "buffer_slice buf (int k * mp) (min (int (length buf) - int k * mp) mp) = []"
      by (intro chunk_later)
    with Suc show ?thesis by simp
  qed
  show ?case
    by (subst writeArea_loop.simps)
       (simp add: cond next_ptr Suc.hyps(1) [OF n] up chunk Let_def del: of_nat_Suc)
qed

lemma writeArea_loop_data:
  assumes "0 < mp"
  shows "\<exists>reqs. writeArea_loop bbyte a d addr buf mp 0 [] = Some reqs
           \<and> concat (map WriteRequest.data reqs) = take (nat mp) buf"
proof -
  let ?n = "slice_count (int (length buf)) mp"
  let ?f = "\<lambda>i. if i = (0::nat) then take (nat mp) buf else []"
  have c: "concat (map ?f [k..<?n]) = (if k = 0 \<and> 0 < ?n then take (nat mp) buf else [])" for k
  proof (induction "?n - k" arbitrary: k)
    case 0
    then show ?case by simp
  next
    case (Suc m)
    then have lt: "k < ?n" and m: "m = ?n - Suc k" by simp_all
    from lt have up: "[k..<?n] = k # [Suc k..<?n]" by (simp add: upt_conv_Cons)
    from Suc.hyps(1) [OF m] lt show ?case by (simp add: up)
  qed
  have z: "take (nat mp) buf = []" if "?n = 0"
  proof -
    have "\<not> int 0 * mp < int (length buf)"
    proof
      assume "int 0 * mp < int (length buf)"
      with assms have "0 < ?n" by (rule slice_count_gt)
      with that show False by simp
    qed
    then show ?thesis by simp
  qed
  from writeArea_loop_chunks [OF assms, of bbyte a d addr buf 0 "[]"] c [of 0] z
  show ?thesis by (auto simp: comp_def)
qed

text \<open>
  C2, at the failing input. \<^verbatim>\<open>data.slice(ptr, Math.min(dataLength - ptr, maxPayload))\<close> gives the
  length of the slice where \<^verbatim>\<open>Buffer.slice\<close> takes the index of its end: with a pdu size
  of 240 (212 bytes per write) and 300 bytes to write, the second job is issued at
  \<open>address + 212\<close> with no bytes, the slices add up to the first 212 bytes only, and the
  call still resolves.
\<close>

theorem C2_writeArea_failing_input:
  "writeArea_loop bbyte area_DB (Some 1) 0 (replicate 300 7) (240 - 28) 0 []
     = Some [\<lparr> area = area_DB, db = Some 1, transport = transport_BYTE, address = 0,
               length' = 212, dataTransport = bbyte, data = replicate 212 7 \<rparr>,
             \<lparr> area = area_DB, db = Some 1, transport = transport_BYTE, address = 212,
               length' = 0, dataTransport = bbyte, data = [] \<rparr>]
   \<and> concat (map WriteRequest.data
         [\<lparr> area = area_DB, db = Some 1, transport = transport_BYTE, address = 0,
            length' = 212, dataTransport = bbyte, data = replicate 212 7 \<rparr>,
          \<lparr> area = area_DB, db = Some 1, transport = transport_BYTE, address = 212,
            length' = 0, dataTransport = bbyte, data = [] \<rparr>]) \<noteq> replicate 300 (7::nat)
   \<and> writeArea bbyte ex_connection (ex_endpoint 240) area_DB 0 (replicate 300 7) (Some 1) []
     = Some (Inr (),
         [[\<lparr> area = area_DB, db = Some 1, transport = transport_BYTE, address = 0,
             length' = 212, syntax_id = syntax_S7ANY \<rparr>],
          [\<lparr> area = area_DB, db = Some 1, transport = transport_BYTE, address = 1696,
             length' = 0, syntax_id = syntax_S7ANY \<rparr>]])"
proof -
  have n: "slice_count 300 212 = 2"
    by (simp add: slice_count_def)
  have u: "[0..<2] = [0, Suc 0]"
    by (simp add: upt_rec)
  have loop: "writeArea_loop bbyte area_DB (Some 1) 0 (replicate 300 7) 212 0 []
     = Some [\<lparr> area = area_DB, db = Some 1, transport = transport_BYTE, address = 0,
               length' = 212, dataTransport = bbyte, data = replicate 212 7 \<rparr>,
             \<lparr> area = area_DB, db = Some 1, transport = transport_BYTE, address = 212,
               length' = 0, dataTransport = bbyte, data = [] \<rparr>]"
    using writeArea_loop_chunks [of 212 bbyte area_DB "Some 1" 0 "replicate 300 7" 0 "[]"]
    by (simp add: n u)
  have ne: "replicate 212 (7::nat) \<noteq> replicate 300 7"
  proof
    assume "replicate 212 (7::nat) = replicate 300 7"
    then have "length (replicate 212 (7::nat)) = length (replicate 300 (7::nat))" by (rule arg_cong)
    then show False by simp
  qed
  have sh: "js_shl3 212 = 1696" "js_shl3 0 = 0" by (simp_all add: js_shl3_def)
  have run: "writeArea bbyte ex_connection (ex_endpoint 240) area_DB 0 (replicate 300 7) (Some 1) []
     = Some (Inr (),
         [[\<lparr> area = area_DB, db = Some 1, transport = transport_BYTE, address = 0,
             length' = 212, syntax_id = syntax_S7ANY \<rparr>],
          [\<lparr> area = area_DB, db = Some 1, transport = transport_BYTE, address = 1696,
             length' = 0, syntax_id = syntax_S7ANY \<rparr>]])"
    by (simp add: writeArea_def ex_endpoint_def pduSize_number_def loop writeVars_def
        ex_connection_def s7any_def sh transport_BYTE_def transport_BIT_def)
  from loop ne run show ?thesis by simp
qed

section \<open>C6: a return code that is not DATA_OK in a grouped read\<close>









lemma scatter_part_missing:
  "k \<le> length offs \<Longrightarrow> length offs < k + length its
   \<Longrightarrow> fst (scatter_part M m its offs d k) = Some JsTypeError"
  by (induction its arbitrary: m k) (simp_all add: array_get_def)






lemma parse_packet_incomplete:
  assumes "returnCode resPart = retval_DATA_OK" and "\<not> part_complete reqPart"
  shows "fst (parse_packet M m (reqPart # req) (resPart # res)) = Some JsTypeError"
proof -
  from assms(2) have "fst (scatter_part M m (items reqPart) (offsets reqPart) (data resPart) 0)
      = Some JsTypeError"
    by (intro scatter_part_missing) (simp_all add: part_complete_def)
  with assms(1) show ?thesis
    by (cases "scatter_part M m (items reqPart) (offsets reqPart) (data resPart) 0") simp
qed

text \<open>
  A cached plan that lacks a descriptor, from the default settings: at pdu size 50 a part
  holds at most 14 bytes, the 16 bytes of \<^verbatim>\<open>DB1,BYTE0.16\<close> are split into parts of 14 and 2
  bytes, and \<^verbatim>\<open>DB1,BYTE13\<close> joins the part at address 14, which does not cover it. The
  planner throws in its second loop and leaves the plan in the cache; the next read,
  answered with 0x05 for DB2, ends with the \<^verbatim>\<open>TypeError\<close> of the part before that of DB2.
\<close>

lemma read_half_built_plan:
  "map_option (\<lambda>r. (fst r, map_option fst
        (readAllItems ex_methods (ex_connection_invalid 2) 0 (snd r) [])))
     (prepareReadPackets ex_methods
        (ex_group 50 [ex_item ''DB1,BYTE0.16'' ''DB'' area_DB (Some 1) 0 16,
                      ex_item ''DB1,BYTE13'' ''DB'' area_DB (Some 1) 13 1,
                      ex_item ''DB2,BYTE0'' ''DB'' area_DB (Some 2) 0 1]))
   = Some (Some (OffsetsNotCalculated ''DB1,BYTE13''), Some (Inl JsTypeError))"
  by code_simp



section \<open>C8: reading before the pdu size is known, and reading an empty group\<close>

lemma cache_inv_iff:
  "cache_inv g =
    (\<forall>pkts. readPackets g = Some pkts \<longrightarrow>
       (\<exists>ep n. endpoint g = Some ep \<and> pduSize ep = Some n \<and> n \<noteq> 0)
       \<and> (group_items g = [] \<longrightarrow> pkts = []))"
  by (auto simp: cache_inv_def split: option.splits)

lemma cache_inv_None: "readPackets g = None \<Longrightarrow> cache_inv g"
  by (simp add: cache_inv_iff)

lemma map_set_nonempty: "map_set m k v \<noteq> []"
  by (cases m) (auto split: if_splits)

lemma addItems_loop_frame:
  "addItems_loop M g ts = (e, g') \<Longrightarrow>
   readPackets g' = readPackets g \<and> endpoint g' = endpoint g
   \<and> (group_items g' = [] \<longrightarrow> group_items g = [])"
proof (induction ts arbitrary: g)
  case Nil
  then show ?case by simp
next
  case (Cons t ts)
  show ?case
  proof (cases t)
    case (TagString s)
    show ?thesis
    proof (cases "new_S7Item M s (translationCallback g s)")
      case (Inl err)
      with Cons.prems TagString show ?thesis by auto
    next
      case (Inr item)
      with Cons.prems TagString
      have "addItems_loop M (g\<lparr> group_items := map_set (group_items g) s item \<rparr>) ts = (e, g')"
        by simp
      from Cons.IH [OF this] show ?thesis by (simp add: map_set_nonempty)
    qed
  next
    case (TagItem item)
    with Cons.prems
    have "addItems_loop M (g\<lparr> group_items := map_set (group_items g) (name item) item \<rparr>) ts = (e, g')"
      by simp
    from Cons.IH [OF this] show ?thesis by (simp add: map_set_nonempty)
  next
    case TagOther
    with Cons.prems show ?thesis by auto
  qed
qed

lemma addItems_inv:
  assumes "cache_inv g" "addItems M tags g = (e, g')"
  shows "cache_inv g'"
proof -
  let ?ts = "case tags of Array ts \<Rightarrow> ts | One t \<Rightarrow> [t]"
  obtain e1 g1 where l: "addItems_loop M g ?ts = (e1, g1)"
    by (cases "addItems_loop M g ?ts") auto
  note fr = addItems_loop_frame [OF l]
  show ?thesis
  proof (cases e1)
    case None
    with assms(2) l have "g' = invalidateReadPackets g1" by (simp add: addItems_def)
    then show ?thesis by (simp add: cache_inv_iff invalidateReadPackets_def)
  next
    case (Some err)
    with assms(2) l have "g' = g1" by (simp add: addItems_def)
    with fr assms(1) show ?thesis
      by (auto simp: cache_inv_iff split: option.splits if_splits)
  qed
qed

lemma removeItems_None: "readPackets (removeItems tags g) = None"
  by (simp add: removeItems_def invalidateReadPackets_def split: remove_arg.splits)

lemma onConnectionConnected_inv:
  "cache_inv g \<Longrightarrow> cache_inv (onConnectionConnected n g)"
  by (auto simp: cache_inv_iff onConnectionConnected_def invalidateReadPackets_def
      split: option.splits if_splits)

lemma prepareReadPackets_inv:
  "prepareReadPackets M g = Some (e, g1) \<Longrightarrow> readPackets g = None \<Longrightarrow> cache_inv g1"
  by (auto simp: prepareReadPackets_def cache_inv_iff split: option.splits if_splits prod.splits)

lemma prepareReadPackets_frame:
  "prepareReadPackets M g = Some (e, g1) \<Longrightarrow>
   endpoint g1 = endpoint g \<and> group_items g1 = group_items g"
  by (auto simp: prepareReadPackets_def split: option.splits if_splits prod.splits)

lemma update_item_length [simp]: "length (update_item m k f) = length m"
  by (simp add: update_item_def)

lemma scatter_part_length [simp]: "length (snd (scatter_part M m its offs d k)) = length m"
  by (induction its arbitrary: m k) (simp_all split: option.splits)

lemma parse_packet_length: "parse_packet M m req res = (e, m') \<Longrightarrow> length m' = length m"
proof (induction M m req res arbitrary: e m' rule: parse_packet.induct)
  case (1 M m res)
  then show ?case by simp
next
  case (2 M m reqPart req)
  then show ?case by simp
next
  case (3 M m reqPart req resPart res)
  obtain e1 m1 where s: "scatter_part M m (items reqPart) (offsets reqPart) (data resPart) 0 = (e1, m1)"
    by (cases "scatter_part M m (items reqPart) (offsets reqPart) (data resPart) 0") auto
  have l: "length m1 = length m"
    using scatter_part_length [of M m "items reqPart" "offsets reqPart" "data resPart" 0] s by simp
  show ?case
  proof (cases "returnCode resPart \<noteq> retval_DATA_OK")
    case True
    with "3.prems" show ?thesis by simp
  next
    case False
    show ?thesis
    proof (cases e1)
      case None
      with "3.prems" False s have "parse_packet M m1 req res = (e, m')" by simp
      with "3.IH" [OF False s [symmetric]] None l show ?thesis by simp
    next
      case (Some a)
      with "3.prems" False s l show ?thesis by auto
    qed
  qed
qed

lemma parse_responses_length:
  "parse_responses M m reqs ress = (e, m') \<Longrightarrow> length m' = length m"
proof (induction M m reqs ress rule: parse_responses.induct)
  case (1 M m responses)
  then show ?case by simp
next
  case (2 M m req reqs)
  then show ?case by (auto split: if_splits)
next
  case (3 M m req reqs res responses)
  obtain e1 m1 where p: "parse_packet M m req res = (e1, m1)"
    by (cases "parse_packet M m req res") auto
  then have l: "length m1 = length m" by (rule parse_packet_length)
  show ?case
  proof (cases e1)
    case None
    with "3.prems" p have "parse_responses M m1 reqs responses = (e, m')" by simp
    with "3.IH" p None l show ?thesis by simp
  next
    case (Some err)
    with "3.prems" p l show ?thesis by auto
  qed
qed

lemma cache_inv_items:
  assumes "cache_inv g" "length m = length (group_items g)"
  shows "cache_inv (g\<lparr> lastRequestTime := t, group_items := m \<rparr>)"
  using assms by (auto simp: cache_inv_iff split: option.splits if_splits)

lemma readAllItems_inv:
  assumes inv: "cache_inv g" and run: "readAllItems M C t g c = Some (r, g', c')"
  shows "cache_inv g'"
proof (cases "endpoint g")
  case None
  with run inv show ?thesis by (simp add: readAllItems_def)
next
  case (Some ep)
  let ?plan = "if readPackets g = None then prepareReadPackets M g else Some (None, g)"
  from run Some obtain e g1 where plan: "?plan = Some (e, g1)"
    by (cases ?plan) (auto simp: readAllItems_def)
  have inv1: "cache_inv g1"
  proof (cases "readPackets g = None")
    case True
    with plan show ?thesis by (auto intro: prepareReadPackets_inv)
  next
    case False
    with plan inv show ?thesis by simp
  qed
  show ?thesis
  proof (cases e)
    case (Some err)
    with run plan \<open>endpoint g = Some ep\<close> inv1 show ?thesis
      by (simp add: readAllItems_def)
  next
    case None
    note eNone = this
    show ?thesis
    proof (cases "readPackets g1")
      case None
      with run plan eNone \<open>endpoint g = Some ep\<close> inv1 show ?thesis
        by (simp add: readAllItems_def)
    next
      case (Some pkts)
      show ?thesis
      proof (cases "pkts = []")
        case True
        with run plan eNone Some \<open>endpoint g = Some ep\<close> inv1 show ?thesis
          by (simp add: readAllItems_def)
      next
        case False
        obtain promises c1 where iss: "issue_all (readVars C ep) pkts c = (promises, c1)"
          by (cases "issue_all (readVars C ep) pkts c") auto
        show ?thesis
        proof (cases "promise_all promises")
          case (Inl err)
          with run plan eNone Some False iss \<open>endpoint g = Some ep\<close> inv1 show ?thesis
            by (simp add: readAllItems_def del: issue_all.simps)
        next
          case (Inr responses)
          obtain e2 m where pr: "parse_responses M (group_items g1) pkts responses = (e2, m)"
            by (cases "parse_responses M (group_items g1) pkts responses") auto
          then have len: "length m = length (group_items g1)" by (rule parse_responses_length)
          show ?thesis
          proof (cases e2)
            case None
            with run plan eNone Some False iss Inr pr \<open>endpoint g = Some ep\<close>
            have "g' = g1\<lparr> lastRequestTime := Some t,
                     group_items := map (\<lambda>kv. (fst kv, updateValueFromBuffer M (snd kv))) m \<rparr>"
              by (simp add: readAllItems_def Let_def del: issue_all.simps parse_responses.simps)
            with inv1 len show ?thesis by (simp add: cache_inv_items)
          next
            case (Some err)
            with run plan eNone \<open>readPackets g1 = Some pkts\<close> False iss Inr pr \<open>endpoint g = Some ep\<close>
            have "g' = g1\<lparr> lastRequestTime := Some t, group_items := m \<rparr>"
              by (simp add: readAllItems_def del: issue_all.simps parse_responses.simps)
            with inv1 len show ?thesis by (simp add: cache_inv_items)
          qed
        qed
      qed
    qed
  qed
qed

lemma writeItems_frame:
  "writeItems bbit M C t tags vals g c = (w, g', c') \<Longrightarrow>
   g' = g \<or> g' = g\<lparr> lastRequestTime := Some t \<rparr>"
  by (auto simp: writeItems_def Let_def split: option.splits if_splits sum.splits prod.splits
      one_or_array.splits tag.splits)

lemma writeItems_inv:
  assumes "cache_inv g" "writeItems bbit M C t tags vals g c = (w, g', c')"
  shows "cache_inv g'"
  using writeItems_frame [OF assms(2)] assms(1)
  by (auto simp: cache_inv_iff)

lemma reachable_cache_inv: "reachable M Cs g \<Longrightarrow> cache_inv g"
proof (induction rule: reachable.induct)
  case (constructed ep skip gap)
  show ?case by (simp add: cache_inv_iff new_S7ItemGroup_def)
next
  case (added g tags e g')
  then show ?case by (blast intro: addItems_inv)
next
  case (removed g tags')
  show ?case by (rule cache_inv_None) (rule removeItems_None)
next
  case (connected g newSize)
  then show ?case by (blast intro: onConnectionConnected_inv)
next
  case (connection_state g ep s)
  then show ?case by (auto simp: cache_inv_iff split: option.splits)
next
  case (read g C requestTime c r g' c')
  then show ?case by (blast intro: readAllItems_inv)
next
  case (written g C bbit requestTime wtags wvalues c w g' c')
  then show ?case by (blast intro: writeItems_inv)
next
  case (destroyed g)
  show ?case by (simp add: cache_inv_iff destroy_def)
next
  case (translation g f)
  then show ?case by (simp add: cache_inv_iff)
qed


text \<open>
  C8. In every state a group can reach: when its endpoint has no pdu size yet (the size
  is \<^verbatim>\<open>null\<close> or 0), \<^verbatim>\<open>readAllItems\<close> rejects with ERR_ILLEGAL_STATE, whether or not the
  group has items, and changes neither the group nor the connection; when the pdu size
  is available and the group is empty, \<^verbatim>\<open>readAllItems\<close> resolves to the empty mapping and
  leaves the connection as it was, so no read request was issued.
\<close>

theorem C8_read_without_pdu_size:
  "(\<forall>M (Cs :: 'c S7Connection set) (g :: 'v S7ItemGroup) ep (C :: 'c S7Connection) t c.
      reachable M Cs g \<and> endpoint g = Some ep \<and> (pduSize ep = None \<or> pduSize ep = Some 0)
      \<longrightarrow> readAllItems M C t g c = Some (Inl (NodeS7Error ERR_ILLEGAL_STATE NoInfo), g, c))
   \<and> (\<forall>M (Cs :: 'c S7Connection set) (g :: 'v S7ItemGroup) ep n (C :: 'c S7Connection) t c.
      reachable M Cs g \<and> endpoint g = Some ep \<and> pduSize ep = Some n \<and> n \<noteq> 0
      \<and> group_items g = []
      \<longrightarrow> readAllItems M C t g c = Some (Inr [], g\<lparr> readPackets := Some [] \<rparr>, c))"
proof (intro conjI allI impI)
  fix M and Cs :: "'c S7Connection set" and g :: "'v S7ItemGroup" and ep
    and C :: "'c S7Connection" and t c
  assume a: "reachable M Cs g \<and> endpoint g = Some ep \<and> (pduSize ep = None \<or> pduSize ep = Some 0)"
  then have "cache_inv g" by (blast intro: reachable_cache_inv)
  with a have np: "readPackets g = None"
    by (auto simp: cache_inv_iff)
  from a have "prepareReadPackets M g = Some (Some (NodeS7Error ERR_ILLEGAL_STATE NoInfo), g)"
    by (auto simp: prepareReadPackets_def)
  with a np show "readAllItems M C t g c = Some (Inl (NodeS7Error ERR_ILLEGAL_STATE NoInfo), g, c)"
    by (simp add: readAllItems_def)
next
  fix M and Cs :: "'c S7Connection set" and g :: "'v S7ItemGroup" and ep n
    and C :: "'c S7Connection" and t c
  assume a: "reachable M Cs g \<and> endpoint g = Some ep \<and> pduSize ep = Some n \<and> n \<noteq> 0
      \<and> group_items g = []"
  then have inv: "cache_inv g" by (blast intro: reachable_cache_inv)
  show "readAllItems M C t g c = Some (Inr [], g\<lparr> readPackets := Some [] \<rparr>, c)"
  proof (cases "readPackets g")
    case None
    from a have "prepareReadPackets M g = Some (None, g\<lparr> readPackets := Some [] \<rparr>)"
      by (simp add: prepareReadPackets_def)
    with a None show ?thesis by (simp add: readAllItems_def)
  next
    case (Some pkts)
    with inv a have "pkts = []" by (auto simp: cache_inv_iff)
    with Some have "g\<lparr> readPackets := Some [] \<rparr> = g" by simp
    with a Some \<open>pkts = []\<close> show ?thesis by (simp add: readAllItems_def)
  qed
qed

theorem C8_read_without_pdu_size_witness:
  "readAllItems ex_methods ex_connection 0
     (new_S7ItemGroup \<lparr> connectionState = CONN_DISCONNECTED, pduSize = None \<rparr> False None) []
   = Some (Inl (NodeS7Error ERR_ILLEGAL_STATE NoInfo),
           new_S7ItemGroup \<lparr> connectionState = CONN_DISCONNECTED, pduSize = None \<rparr> False None, [])
   \<and> readAllItems ex_methods ex_connection 0 (new_S7ItemGroup (ex_endpoint 240) False None) []
   = Some (Inr [], (new_S7ItemGroup (ex_endpoint 240) False None)\<lparr> readPackets := Some [] \<rparr>, [])"
proof -
  let ?ep = "\<lparr> connectionState = CONN_DISCONNECTED, pduSize = None \<rparr>"
  let ?g0 = "new_S7ItemGroup ?ep False None :: unit S7ItemGroup"
  let ?g1 = "new_S7ItemGroup (ex_endpoint 240) False None :: unit S7ItemGroup"
  have r0: "reachable ex_methods (UNIV :: (S7AnyRequest list list) S7Connection set) ?g0"
    by (rule reachable.constructed)
  have r1: "reachable ex_methods (UNIV :: (S7AnyRequest list list) S7Connection set) ?g1"
    by (rule reachable.constructed)
  have h0: "reachable ex_methods (UNIV :: (S7AnyRequest list list) S7Connection set) ?g0
            \<and> endpoint ?g0 = Some ?ep \<and> (pduSize ?ep = None \<or> pduSize ?ep = Some 0)"
    using r0 by (simp add: new_S7ItemGroup_def)
  have h1: "reachable ex_methods (UNIV :: (S7AnyRequest list list) S7Connection set) ?g1
            \<and> endpoint ?g1 = Some (ex_endpoint 240) \<and> pduSize (ex_endpoint 240) = Some 240
            \<and> (240::int) \<noteq> 0 \<and> group_items ?g1 = []"
    using r1 by (simp add: new_S7ItemGroup_def ex_endpoint_def)
  from C8_read_without_pdu_size [THEN conjunct1, rule_format, OF h0, of ex_connection 0 "[]"]
       C8_read_without_pdu_size [THEN conjunct2, rule_format, OF h1, of ex_connection 0 "[]"]
  show ?thesis by simp
qed

section \<open>C9: invalidation of the cached plan\<close>

lemma addItems_returns_invalidates:
  "addItems M tags g = (None, g') \<Longrightarrow> readPackets g' = None"
  by (auto simp: addItems_def invalidateReadPackets_def Let_def split: prod.splits option.splits)

lemma removeItems_invalidates: "readPackets (removeItems tags g) = None"
  by (rule removeItems_None)

lemma on_pdu_size_invalidates: "readPackets (on_pdu_size g) = None"
  by (simp add: on_pdu_size_def invalidateReadPackets_def)

lemma new_pdu_size_invalidates:
  "endpoint g = Some ep \<Longrightarrow> pduSize ep \<noteq> n \<Longrightarrow> readPackets (onConnectionConnected n g) = None"
  by (simp add: onConnectionConnected_def invalidateReadPackets_def)

lemma read_after_invalidation_plans:
  assumes "endpoint g = Some ep" "readPackets g = None"
    and "readAllItems M C t g c = Some (r, g', c')"
  shows "\<exists>e g1. prepareReadPackets M g = Some (e, g1) \<and> readPackets g' = readPackets g1"
proof -
  from assms obtain e g1 where p: "prepareReadPackets M g = Some (e, g1)"
    by (cases "prepareReadPackets M g") (auto simp: readAllItems_def)
  with assms have "readPackets g' = readPackets g1"
    by (auto simp: readAllItems_def Let_def split: option.splits if_splits prod.splits sum.splits)
  with p show ?thesis by blast
qed

text \<open>
  C9, at the failing input. A group on an endpoint with pdu size 240 has read once while
  empty, so its cached plan is the empty plan. \<^verbatim>\<open>addItems\<close> with a valid tag followed by a
  tag whose address does not parse puts the first item into the map and then throws
  (ERR_PARSE_ADDR, from the constructor of the item) before it reaches
  \<^verbatim>\<open>_invalidateReadPackets\<close>: the cached plan is still there, and the next
  \<^verbatim>\<open>readAllItems\<close> does not plan again, issues no request and resolves to the empty
  mapping although the group holds the item.
\<close>

theorem C9_addItems_failing_input:
  "addItems ex_methods
     (Array [TagString ''DB1,BYTE0'', TagString ''DB1,BYTE''])
     ((new_S7ItemGroup (ex_endpoint 240) False None)\<lparr> readPackets := Some [] \<rparr>)
   = (Some (NodeS7Error ERR_PARSE_ADDR NoInfo),
      (new_S7ItemGroup (ex_endpoint 240) False None)
        \<lparr> readPackets := Some [],
          group_items := [(''DB1,BYTE0'', ex_item ''DB1,BYTE0'' ''DB'' area_DB (Some 1) 0 1)] \<rparr>)
   \<and> readPackets
       ((new_S7ItemGroup (ex_endpoint 240) False None)
        \<lparr> readPackets := Some [],
          group_items := [(''DB1,BYTE0'', ex_item ''DB1,BYTE0'' ''DB'' area_DB (Some 1) 0 1)] \<rparr>)
     \<noteq> None
   \<and> readAllItems ex_methods ex_connection 1
       ((new_S7ItemGroup (ex_endpoint 240) False None)
        \<lparr> readPackets := Some [],
          group_items := [(''DB1,BYTE0'', ex_item ''DB1,BYTE0'' ''DB'' area_DB (Some 1) 0 1)] \<rparr>) []
     = Some (Inr [],
         (new_S7ItemGroup (ex_endpoint 240) False None)
          \<lparr> readPackets := Some [],
            group_items := [(''DB1,BYTE0'', ex_item ''DB1,BYTE0'' ''DB'' area_DB (Some 1) 0 1)] \<rparr>,
         [])"
  by (simp add: addItems_def readAllItems_def new_S7ItemGroup_def ex_methods_def)

section \<open>C5: packing of write requests\<close>

lemma pack_from_nonempty_list [simp]: "pack_from mx cur xs \<noteq> []"
  by (induction xs arbitrary: cur) simp_all

lemma pack_from_concat: "concat (pack_from mx cur xs) = cur @ xs"
  by (induction xs arbitrary: cur) simp_all

lemma pack_from_hd: "\<exists>ys. hd (pack_from mx cur xs) = cur @ ys"
proof (induction xs arbitrary: cur)
  case Nil
  then show ?case by simp
next
  case (Cons x rest)
  from Cons.IH [of "cur @ [x]"] obtain ys where "hd (pack_from mx (cur @ [x]) rest) = cur @ x # ys"
    by auto
  then show ?case by auto
qed

lemma pack_from_packets_nonempty:
  "cur \<noteq> [] \<or> xs \<noteq> [] \<Longrightarrow> list_all (\<lambda>x. fst x \<le> mx) xs
   \<Longrightarrow> list_all (\<lambda>p. p \<noteq> []) (pack_from mx cur xs)"
  by (induction xs arbitrary: cur) auto

lemma pack_from_fits:
  "sum_list (map fst cur) \<le> mx \<or> cur = [] \<and> xs \<noteq> [] \<Longrightarrow> list_all (\<lambda>x. fst x \<le> mx) xs
   \<Longrightarrow> list_all (\<lambda>p. sum_list (map fst p) \<le> mx) (pack_from mx cur xs)"
proof (induction xs arbitrary: cur)
  case Nil
  then show ?case by simp
next
  case (Cons x rest)
  from Cons.prems(2) have x: "fst x \<le> mx" and rest: "list_all (\<lambda>x. fst x \<le> mx) rest"
    by simp_all
  show ?case
  proof (cases "sum_list (map fst cur) + fst x > mx")
    case True
    with x Cons.prems(1) have cur: "sum_list (map fst cur) \<le> mx" by auto
    have "list_all (\<lambda>p. sum_list (map fst p) \<le> mx) (pack_from mx [x] rest)"
      by (rule Cons.IH [OF _ rest]) (simp add: x)
    with True cur show ?thesis by simp
  next
    case False
    have "list_all (\<lambda>p. sum_list (map fst p) \<le> mx) (pack_from mx (cur @ [x]) rest)"
      by (rule Cons.IH [OF _ rest]) (use False in simp)
    with False show ?thesis by simp
  qed
qed

lemma pack_from_greedy:
  "successively (\<lambda>p q. sum_list (map fst p) + fst (hd q) > mx) (pack_from mx cur xs)"
proof (induction xs arbitrary: cur)
  case Nil
  then show ?case by simp
next
  case (Cons x rest)
  show ?case
  proof (cases "sum_list (map fst cur) + fst x > mx")
    case True
    obtain ys where h: "hd (pack_from mx [x] rest) = [x] @ ys"
      using pack_from_hd [of mx "[x]" rest] by blast
    obtain q qs where q: "pack_from mx [x] rest = q # qs"
      by (cases "pack_from mx [x] rest") auto
    with h have "hd q = x" by simp
    with True Cons.IH [of "[x]"] q show ?thesis by simp
  next
    case False
    with Cons.IH [of "cur @ [x]"] show ?thesis by simp
  qed
qed

lemma writeItems_loop_pack:
  assumes "list_all2 (resolves M g) tvs ibs" and "\<not> list_ex (too_big mx) ibs"
    and "reqItems = map snd cur" and "curRequestLength = sum_list (map fst cur)"
  shows "writeItems_loop bbit M g mx tvs reqPackets reqItems curRequestLength
         = Inr (reqPackets @ butlast (map (map snd) (pack_from mx cur (map (sized_request bbit) ibs))),
                last (map (map snd) (pack_from mx cur (map (sized_request bbit) ibs))))"
  using assms
proof (induction tvs ibs arbitrary: reqPackets reqItems curRequestLength cur rule: list_all2_induct)
  case Nil
  then show ?case by simp
next
  case (Cons tv tvs ib ibs)
  obtain t v where tv: "tv = (t, v)" by (cases tv) auto
  from Cons.hyps(1) tv obtain s where s: "t = TagString s"
    and wi: "write_item M g s = Inr (fst ib)"
    and wb: "getWriteBuffer M (fst ib) v = Inr (snd ib)"
    by (auto simp: resolves_def split: tag.splits)
  from Cons.prems(1) have rest: "\<not> list_ex (too_big mx) ibs" by simp
  from Cons.prems(1) have small: "\<not> overheadPerItem + byteLengthWithFill (fst ib) > mx"
    by (simp add: too_big_def)
  let ?sz = "overheadPerItem + byteLengthWithFill (fst ib)"
  let ?rq = "write_request bbit (fst ib) (snd ib)"
  have sr: "sized_request bbit ib = (?sz, ?rq)" by (simp add: sized_request_def)
  show ?case
  proof (cases "curRequestLength + ?sz > mx")
    case True
    have "writeItems_loop bbit M g mx (tv # tvs) reqPackets reqItems curRequestLength
          = writeItems_loop bbit M g mx tvs (reqPackets @ [reqItems]) [?rq] (0 + ?sz)"
      using True small by (simp add: tv s wi wb Let_def)
    also have "\<dots> = Inr ((reqPackets @ [reqItems])
                         @ butlast (map (map snd) (pack_from mx [(?sz, ?rq)] (map (sized_request bbit) ibs))),
                       last (map (map snd) (pack_from mx [(?sz, ?rq)] (map (sized_request bbit) ibs))))"
      by (rule Cons.IH [OF rest]) simp_all
    finally show ?thesis
      using True Cons.prems(2,3) by (simp add: sr)
  next
    case False
    have "writeItems_loop bbit M g mx (tv # tvs) reqPackets reqItems curRequestLength
          = writeItems_loop bbit M g mx tvs reqPackets (reqItems @ [?rq]) (curRequestLength + ?sz)"
      using False small by (simp add: tv s wi wb Let_def)
    also have "\<dots> = Inr (reqPackets
                         @ butlast (map (map snd) (pack_from mx (cur @ [(?sz, ?rq)]) (map (sized_request bbit) ibs))),
                       last (map (map snd) (pack_from mx (cur @ [(?sz, ?rq)]) (map (sized_request bbit) ibs))))"
      by (rule Cons.IH [OF rest]) (simp_all add: Cons.prems(2,3))
    finally show ?thesis
      using False Cons.prems(2,3) by (simp add: sr)
  qed
qed

lemma writeItems_loop_too_big:
  assumes "list_all2 (resolves M g) tvs ibs" and "list_ex (too_big mx) ibs"
  shows "\<exists>i s. i < length ibs \<and> too_big mx (ibs ! i) \<and> (\<forall>j<i. \<not> too_big mx (ibs ! j))
           \<and> fst (tvs ! i) = TagString s
           \<and> writeItems_loop bbit M g mx tvs reqPackets reqItems curRequestLength
               = Inl (NodeS7Error ERR_ITEM_TOO_BIG (TagInfo s))"
  using assms
proof (induction tvs ibs arbitrary: reqPackets reqItems curRequestLength rule: list_all2_induct)
  case Nil
  then show ?case by simp
next
  case (Cons tv tvs ib ibs)
  obtain t v where tv: "tv = (t, v)" by (cases tv) auto
  from Cons.hyps(1) tv obtain s where s: "t = TagString s"
    and wi: "write_item M g s = Inr (fst ib)"
    and wb: "getWriteBuffer M (fst ib) v = Inr (snd ib)"
    by (auto simp: resolves_def split: tag.splits)
  show ?case
  proof (cases "too_big mx ib")
    case True
    then have "writeItems_loop bbit M g mx (tv # tvs) reqPackets reqItems curRequestLength
               = Inl (NodeS7Error ERR_ITEM_TOO_BIG (TagInfo s))"
      by (simp add: tv s wi wb too_big_def Let_def)
    with tv s True have "0 < length (ib # ibs) \<and> too_big mx ((ib # ibs) ! 0)
        \<and> (\<forall>j<0. \<not> too_big mx ((ib # ibs) ! j))
        \<and> fst ((tv # tvs) ! 0) = TagString s
        \<and> writeItems_loop bbit M g mx (tv # tvs) reqPackets reqItems curRequestLength
               = Inl (NodeS7Error ERR_ITEM_TOO_BIG (TagInfo s))"
      by simp
    then show ?thesis by blast
  next
    case False
    with Cons.prems have ex: "list_ex (too_big mx) ibs" by simp
    from False have small: "\<not> overheadPerItem + byteLengthWithFill (fst ib) > mx"
      by (simp add: too_big_def)
    let ?sz = "overheadPerItem + byteLengthWithFill (fst ib)"
    let ?rq = "write_request bbit (fst ib) (snd ib)"
    have "\<exists>rp ri cl. writeItems_loop bbit M g mx (tv # tvs) reqPackets reqItems curRequestLength
            = writeItems_loop bbit M g mx tvs rp ri cl"
    proof (cases "curRequestLength + ?sz > mx")
      case True
      have "writeItems_loop bbit M g mx (tv # tvs) reqPackets reqItems curRequestLength
            = writeItems_loop bbit M g mx tvs (reqPackets @ [reqItems]) [?rq] (0 + ?sz)"
        using True small by (simp add: tv s wi wb Let_def)
      then show ?thesis by blast
    next
      case False
      have "writeItems_loop bbit M g mx (tv # tvs) reqPackets reqItems curRequestLength
            = writeItems_loop bbit M g mx tvs reqPackets (reqItems @ [?rq]) (curRequestLength + ?sz)"
        using False small by (simp add: tv s wi wb Let_def)
      then show ?thesis by blast
    qed
    then obtain rp ri cl where e: "writeItems_loop bbit M g mx (tv # tvs) reqPackets reqItems curRequestLength
            = writeItems_loop bbit M g mx tvs rp ri cl" by blast
    from Cons.IH [OF ex, of rp ri cl] obtain i s' where i: "i < length ibs" "too_big mx (ibs ! i)"
      "\<forall>j<i. \<not> too_big mx (ibs ! j)" "fst (tvs ! i) = TagString s'"
      "writeItems_loop bbit M g mx tvs rp ri cl = Inl (NodeS7Error ERR_ITEM_TOO_BIG (TagInfo s'))"
      by blast
    have "\<forall>j<Suc i. \<not> too_big mx ((ib # ibs) ! j)"
      using False i(3) by (auto simp: less_Suc_eq_0_disj)
    with i e have "Suc i < length (ib # ibs) \<and> too_big mx ((ib # ibs) ! Suc i)
        \<and> (\<forall>j<Suc i. \<not> too_big mx ((ib # ibs) ! j))
        \<and> fst ((tv # tvs) ! Suc i) = TagString s'
        \<and> writeItems_loop bbit M g mx (tv # tvs) reqPackets reqItems curRequestLength
               = Inl (NodeS7Error ERR_ITEM_TOO_BIG (TagInfo s'))"
      by simp
    then show ?thesis by blast
  qed
qed

lemma writeItems_array:
  assumes "endpoint g = Some ep" "isConnected ep" "tvs \<noteq> []"
  shows "writeItems bbit M C t (Array (map fst tvs)) (Array (map snd tvs)) g c
         = (case writeItems_loop bbit M g (pduSize_number ep - 12) tvs [] [] 0 of
              Inl e \<Rightarrow> (Inl e, g, c)
            | Inr (reqPackets, reqItems) \<Rightarrow>
               (case issue_all (writeVars C ep) (reqPackets @ [reqItems]) c of
                  (promises, c') \<Rightarrow>
                    (case promise_all promises of
                       Inl e \<Rightarrow> (Inl e, g, c')
                     | Inr responses \<Rightarrow>
                         (writeItems_responses responses,
                          g\<lparr> lastRequestTime := Some t \<rparr>, c'))))"
  using assms by (simp add: writeItems_def zip_map_fst_snd del: issue_all.simps)

text \<open>
  C5. On a connected endpoint, for tags that resolve to items and values that encode:
  when some item's request size 16 + byteLengthWithFill exceeds pduSize - 12,
  \<^verbatim>\<open>writeItems\<close> throws ERR_ITEM_TOO_BIG naming the tag of the first such item, and
  neither the group nor the connection has changed, so that no request was sent.
  Otherwise the packing loop returns the packets of the specification's packing, which
  starts a new packet exactly when the item's size added to the accumulated length of
  the packet exceeds pduSize - 12, and \<^verbatim>\<open>writeItems\<close> issues one job for each of them, in
  order. The packets hold the requests of the items, each once and whole, in the order of
  the tags; no packet is empty, every packet fits pduSize - 12, and the first item of
  every packet after the first did not fit the packet before it.
\<close>

theorem C5_write_packing:
  "(\<forall>bbit M (C :: 'c S7Connection) t (g :: 'v S7ItemGroup) c ep tvs ibs.
      endpoint g = Some ep \<and> isConnected ep \<and> tvs \<noteq> [] \<and> list_all2 (resolves M g) tvs ibs
      \<and> list_ex (too_big (pduSize_number ep - 12)) ibs \<longrightarrow>
      (\<exists>i s. i < length ibs \<and> too_big (pduSize_number ep - 12) (ibs ! i)
         \<and> (\<forall>j<i. \<not> too_big (pduSize_number ep - 12) (ibs ! j))
         \<and> fst (tvs ! i) = TagString s
         \<and> writeItems bbit M C t (Array (map fst tvs)) (Array (map snd tvs)) g c
             = (Inl (NodeS7Error ERR_ITEM_TOO_BIG (TagInfo s)), g, c)))
   \<and> (\<forall>bbit M (C :: 'c S7Connection) t (g :: 'v S7ItemGroup) c ep tvs ibs.
      endpoint g = Some ep \<and> isConnected ep \<and> tvs \<noteq> [] \<and> list_all2 (resolves M g) tvs ibs
      \<and> \<not> list_ex (too_big (pduSize_number ep - 12)) ibs \<longrightarrow>
        writeItems_loop bbit M g (pduSize_number ep - 12) tvs [] [] 0
          = Inr (butlast (map (map snd) (write_packets bbit (pduSize_number ep - 12) ibs)),
                 last (map (map snd) (write_packets bbit (pduSize_number ep - 12) ibs)))
      \<and> writeItems bbit M C t (Array (map fst tvs)) (Array (map snd tvs)) g c
          = (case issue_all (writeVars C ep)
                    (map (map snd) (write_packets bbit (pduSize_number ep - 12) ibs)) c of
               (promises, c') \<Rightarrow>
                 (case promise_all promises of
                    Inl e \<Rightarrow> (Inl e, g, c')
                  | Inr responses \<Rightarrow>
                      (writeItems_responses responses, g\<lparr> lastRequestTime := Some t \<rparr>, c')))
      \<and> concat (write_packets bbit (pduSize_number ep - 12) ibs) = map (sized_request bbit) ibs
      \<and> list_all (\<lambda>p. p \<noteq> [] \<and> sum_list (map fst p) \<le> pduSize_number ep - 12)
          (write_packets bbit (pduSize_number ep - 12) ibs)
      \<and> successively (\<lambda>p q. sum_list (map fst p) + fst (hd q) > pduSize_number ep - 12)
          (write_packets bbit (pduSize_number ep - 12) ibs))"
proof (intro conjI allI impI)
  fix bbit M and C :: "'c S7Connection" and t and g :: "'v S7ItemGroup" and c ep tvs ibs
  assume h: "endpoint g = Some ep \<and> isConnected ep \<and> tvs \<noteq> [] \<and> list_all2 (resolves M g) tvs ibs
      \<and> list_ex (too_big (pduSize_number ep - 12)) ibs"
  let ?mx = "pduSize_number ep - 12"
  from h have res: "list_all2 (resolves M g) tvs ibs" and ex: "list_ex (too_big ?mx) ibs"
    by simp_all
  from writeItems_loop_too_big [OF res ex, of bbit "[]" "[]" 0]
  obtain i s where i: "i < length ibs" "too_big ?mx (ibs ! i)" "\<forall>j<i. \<not> too_big ?mx (ibs ! j)"
    "fst (tvs ! i) = TagString s"
    "writeItems_loop bbit M g ?mx tvs [] [] 0 = Inl (NodeS7Error ERR_ITEM_TOO_BIG (TagInfo s))"
    by blast
  have "writeItems bbit M C t (Array (map fst tvs)) (Array (map snd tvs)) g c
        = (Inl (NodeS7Error ERR_ITEM_TOO_BIG (TagInfo s)), g, c)"
    using h by (simp add: writeItems_array i(5))
  with i(1-4) show "\<exists>i s. i < length ibs \<and> too_big ?mx (ibs ! i)
         \<and> (\<forall>j<i. \<not> too_big ?mx (ibs ! j))
         \<and> fst (tvs ! i) = TagString s
         \<and> writeItems bbit M C t (Array (map fst tvs)) (Array (map snd tvs)) g c
             = (Inl (NodeS7Error ERR_ITEM_TOO_BIG (TagInfo s)), g, c)"
    by blast
next
  fix bbit M and C :: "'c S7Connection" and t and g :: "'v S7ItemGroup" and c ep tvs ibs
  assume h: "endpoint g = Some ep \<and> isConnected ep \<and> tvs \<noteq> [] \<and> list_all2 (resolves M g) tvs ibs
      \<and> \<not> list_ex (too_big (pduSize_number ep - 12)) ibs"
  let ?mx = "pduSize_number ep - 12"
  let ?P = "write_packets bbit ?mx ibs"
  from h have res: "list_all2 (resolves M g) tvs ibs" and nex: "\<not> list_ex (too_big ?mx) ibs"
    by simp_all
  from res h have ne: "ibs \<noteq> []" by auto
  from nex have small: "list_all (\<lambda>x. fst x \<le> ?mx) (map (sized_request bbit) ibs)"
    by (simp add: list_all_iff list_ex_iff too_big_def sized_request_def not_less)
  show loop: "writeItems_loop bbit M g ?mx tvs [] [] 0
          = Inr (butlast (map (map snd) ?P), last (map (map snd) ?P))"
    using writeItems_loop_pack [OF res nex, of "[]" "[]" 0 bbit "[]"]
    by (simp add: write_packets_def)
  have P_ne: "map (map snd) ?P \<noteq> []" by (simp add: write_packets_def)
  show "writeItems bbit M C t (Array (map fst tvs)) (Array (map snd tvs)) g c
          = (case issue_all (writeVars C ep) (map (map snd) ?P) c of
               (promises, c') \<Rightarrow>
                 (case promise_all promises of
                    Inl e \<Rightarrow> (Inl e, g, c')
                  | Inr responses \<Rightarrow>
                      (writeItems_responses responses, g\<lparr> lastRequestTime := Some t \<rparr>, c')))"
    using h P_ne by (simp add: writeItems_array loop del: issue_all.simps)
  show "concat ?P = map (sized_request bbit) ibs"
    by (simp add: write_packets_def pack_from_concat)
  have "list_all (\<lambda>p. p \<noteq> []) ?P"
    unfolding write_packets_def using ne small by (intro pack_from_packets_nonempty) simp_all
  moreover have "list_all (\<lambda>p. sum_list (map fst p) \<le> ?mx) ?P"
    unfolding write_packets_def
    using ne by (intro pack_from_fits [OF _ small]) simp
  ultimately show "list_all (\<lambda>p. p \<noteq> [] \<and> sum_list (map fst p) \<le> ?mx) ?P"
    by (simp add: list_all_iff)
  show "successively (\<lambda>p q. sum_list (map fst p) + fst (hd q) > ?mx) ?P"
    by (simp add: write_packets_def pack_from_greedy)
qed

theorem C5_write_packing_witness:
  "(\<exists>s. writeItems 3 ex_methods ex_connection 0
            (Array [TagString ''A'', TagString ''BIG'', TagString ''B'']) (Array [(), (), ()])
            (ex_group 40 [ex_item ''A'' ''DB'' area_DB (Some 1) 0 1,
                          ex_item ''B'' ''DB'' area_DB (Some 1) 1 1,
                          ex_item ''BIG'' ''DB'' area_DB (Some 1) 2 20]) []
          = (Inl (NodeS7Error ERR_ITEM_TOO_BIG (TagInfo s)),
             ex_group 40 [ex_item ''A'' ''DB'' area_DB (Some 1) 0 1,
                          ex_item ''B'' ''DB'' area_DB (Some 1) 1 1,
                          ex_item ''BIG'' ''DB'' area_DB (Some 1) 2 20], []))
   \<and> writeItems_loop 3 ex_methods
        (ex_group 40 [ex_item ''A'' ''DB'' area_DB (Some 1) 0 1,
                      ex_item ''B'' ''DB'' area_DB (Some 1) 1 1,
                      ex_item ''BIG'' ''DB'' area_DB (Some 1) 2 20])
        28 [(TagString ''A'', ()), (TagString ''B'', ())] [] [] 0
      = Inr ([[\<lparr> area = area_DB, db = Some 1, transport = transport_BYTE, address = 0,
                  length' = 1, dataTransport = 4, data = [0] \<rparr>]],
             [\<lparr> area = area_DB, db = Some 1, transport = transport_BYTE, address = 1,
                 length' = 1, dataTransport = 4, data = [0] \<rparr>])"
proof -
  let ?a = "ex_item ''A'' ''DB'' area_DB (Some 1) 0 1"
  let ?b = "ex_item ''B'' ''DB'' area_DB (Some 1) 1 1"
  let ?big = "ex_item ''BIG'' ''DB'' area_DB (Some 1) 2 20"
  let ?g = "ex_group 40 [?a, ?b, ?big]"
  let ?ep = "ex_endpoint 40"
  let ?tvs1 = "[(TagString ''A'', ()), (TagString ''BIG'', ()), (TagString ''B'', ())]
                :: (unit tag \<times> unit) list"
  let ?ibs1 = "[(?a, [0]), (?big, replicate 20 0), (?b, [0])] :: (unit S7Item \<times> byte list) list"
  let ?tvs2 = "[(TagString ''A'', ()), (TagString ''B'', ())] :: (unit tag \<times> unit) list"
  let ?ibs2 = "[(?a, [0]), (?b, [0])] :: (unit S7Item \<times> byte list) list"
  have ep: "endpoint ?g = Some ?ep" "isConnected ?ep" "pduSize_number ?ep - 12 = 28"
    by (simp_all add: ex_group_def new_S7ItemGroup_def ex_endpoint_def isConnected_def
        pduSize_number_def)
  have r1: "list_all2 (resolves ex_methods ?g) ?tvs1 ?ibs1"
    by (simp add: resolves_def write_item_def map_get_def ex_group_def ex_item_def ex_methods_def)
  have r2: "list_all2 (resolves ex_methods ?g) ?tvs2 ?ibs2"
    by (simp add: resolves_def write_item_def map_get_def ex_group_def ex_item_def ex_methods_def)
  have b1: "list_ex (too_big (pduSize_number ?ep - 12)) ?ibs1"
    by (simp add: ep too_big_def overheadPerItem_def ex_item_def)
  have b2: "\<not> list_ex (too_big (pduSize_number ?ep - 12)) ?ibs2"
    by (simp add: ep too_big_def overheadPerItem_def ex_item_def)
  from C5_write_packing [THEN conjunct1, rule_format, of ?g ?ep ?tvs1 ex_methods ?ibs1 3 ex_connection 0 "[]"]
    ep(1,2) r1 b1
  have 1: "\<exists>s. writeItems 3 ex_methods ex_connection 0
            (Array [TagString ''A'', TagString ''BIG'', TagString ''B'']) (Array [(), (), ()]) ?g []
          = (Inl (NodeS7Error ERR_ITEM_TOO_BIG (TagInfo s)), ?g, [])"
    by auto
  from C5_write_packing [THEN conjunct2, rule_format, of ?g ?ep ?tvs2 ex_methods ?ibs2 3 ex_connection 0 "[]"]
    ep(1,2) r2 b2
  have "writeItems_loop 3 ex_methods ?g (pduSize_number ?ep - 12) ?tvs2 [] [] 0
          = Inr (butlast (map (map snd) (write_packets 3 (pduSize_number ?ep - 12) ?ibs2)),
                 last (map (map snd) (write_packets 3 (pduSize_number ?ep - 12) ?ibs2)))"
    by blast
  then have 2: "writeItems_loop 3 ex_methods ?g 28 ?tvs2 [] [] 0
      = Inr ([[\<lparr> area = area_DB, db = Some 1, transport = transport_BYTE, address = 0,
                  length' = 1, dataTransport = 4, data = [0] \<rparr>]],
             [\<lparr> area = area_DB, db = Some 1, transport = transport_BYTE, address = 1,
                 length' = 1, dataTransport = 4, data = [0] \<rparr>])"
    by (simp add: ep write_packets_def sized_request_def write_request_def overheadPerItem_def
        ex_item_def)
  from 1 2 show ?thesis by blast
qed

section \<open>C10: writes leave the item set and the plan alone\<close>

lemma writeItems_one:
  assumes "endpoint g = Some ep" "isConnected ep"
    and "write_item M g s = Inr item" "getWriteBuffer M item v = Inr buf"
    and "overheadPerItem + byteLengthWithFill item \<le> pduSize_number ep - 12"
  shows "writeItems bbit M C t (One (TagString s)) (One v) g c
         = (case writeVars C ep [write_request bbit item buf] c of
              (Inl e, c') \<Rightarrow> (Inl e, g, c')
            | (Inr response, c') \<Rightarrow>
                (writeItems_responses [response], g\<lparr> lastRequestTime := Some t \<rparr>, c'))"
  using assms
  by (simp add: writeItems_def Let_def split: prod.splits sum.splits)

text \<open>
  C10. A call of \<^verbatim>\<open>writeItems\<close>, whatever its arguments and outcome, leaves the item map of
  the group and its cached read plan as they were (of the state of the group it changes
  only the time of the last request). And a tag that is not in the item map is written
  without a prior \<^verbatim>\<open>addItems\<close>: on a connected endpoint, when the translated address parses
  to an item that fits a packet and the value encodes, the call issues the one write job
  with the request of that item, and resolves or rejects with the outcome of the job; the
  item is in no state afterwards.
\<close>

theorem C10_write_frame:
  "(\<forall>bbit M (C :: 'c S7Connection) t tags vals (g :: 'v S7ItemGroup) c.
      group_items (fst (snd (writeItems bbit M C t tags vals g c))) = group_items g
    \<and> readPackets (fst (snd (writeItems bbit M C t tags vals g c))) = readPackets g)
   \<and> (\<forall>bbit M (C :: 'c S7Connection) t s v (g :: 'v S7ItemGroup) c ep item buf.
      endpoint g = Some ep \<and> isConnected ep \<and> map_get (group_items g) s = None
      \<and> new_S7Item M s (translationCallback g s) = Inr item
      \<and> getWriteBuffer M item v = Inr buf
      \<and> overheadPerItem + byteLengthWithFill item \<le> pduSize_number ep - 12 \<longrightarrow>
      writeItems bbit M C t (One (TagString s)) (One v) g c
        = (case writeVars C ep [write_request bbit item buf] c of
             (Inl e, c') \<Rightarrow> (Inl e, g, c')
           | (Inr response, c') \<Rightarrow>
               (writeItems_responses [response], g\<lparr> lastRequestTime := Some t \<rparr>, c')))"
proof (intro conjI allI impI)
  fix bbit M and C :: "'c S7Connection" and t tags vals and g :: "'v S7ItemGroup" and c
  obtain w g' c' where r: "writeItems bbit M C t tags vals g c = (w, g', c')"
    by (cases "writeItems bbit M C t tags vals g c") auto
  from writeItems_frame [OF r] have g': "g' = g \<or> g' = g\<lparr> lastRequestTime := Some t \<rparr>" .
  from g' show "group_items (fst (snd (writeItems bbit M C t tags vals g c))) = group_items g"
    by (auto simp: r)
  from g' show "readPackets (fst (snd (writeItems bbit M C t tags vals g c))) = readPackets g"
    by (auto simp: r)
next
  fix bbit and M :: "'v S7Item_methods" and C :: "'c S7Connection" and t s and v :: 'v
    and g :: "'v S7ItemGroup" and c ep and item :: "'v S7Item" and buf
  assume h: "endpoint g = Some ep \<and> isConnected ep \<and> map_get (group_items g) s = None
      \<and> new_S7Item M s (translationCallback g s) = Inr item
      \<and> getWriteBuffer M item v = Inr buf
      \<and> overheadPerItem + byteLengthWithFill item \<le> pduSize_number ep - 12"
  then have wi: "write_item M g s = Inr item" by (simp add: write_item_def)
  show "writeItems bbit M C t (One (TagString s)) (One v) g c
        = (case writeVars C ep [write_request bbit item buf] c of
             (Inl e, c') \<Rightarrow> (Inl e, g, c')
           | (Inr response, c') \<Rightarrow>
               (writeItems_responses [response], g\<lparr> lastRequestTime := Some t \<rparr>, c'))"
    using h by (intro writeItems_one [OF _ _ wi]) simp_all
qed

theorem C10_write_frame_witness:
  "writeItems 3 ex_methods ex_connection 7 (One (TagString ''DB1,BYTE0'')) (One ())
      (ex_group 240 [ex_item ''B'' ''DB'' area_DB (Some 1) 1 1]) []
   = (Inr (),
      (ex_group 240 [ex_item ''B'' ''DB'' area_DB (Some 1) 1 1])\<lparr> lastRequestTime := Some 7 \<rparr>,
      [[\<lparr> area = area_DB, db = Some 1, transport = transport_BYTE, address = 0, length' = 1,
          syntax_id = syntax_S7ANY \<rparr>]])
   \<and> group_items (fst (snd (writeItems 3 ex_methods ex_connection 7
        (One (TagString ''DB1,BYTE0'')) (One ())
        (ex_group 240 [ex_item ''B'' ''DB'' area_DB (Some 1) 1 1]) [])))
      = [(''B'', ex_item ''B'' ''DB'' area_DB (Some 1) 1 1)]"
proof -
  let ?g = "ex_group 240 [ex_item ''B'' ''DB'' area_DB (Some 1) 1 1]"
  let ?ep = "ex_endpoint 240"
  let ?item = "ex_item ''DB1,BYTE0'' ''DB'' area_DB (Some 1) 0 1"
  have h: "endpoint ?g = Some ?ep \<and> isConnected ?ep \<and> map_get (group_items ?g) ''DB1,BYTE0'' = None
      \<and> new_S7Item ex_methods ''DB1,BYTE0'' (translationCallback ?g ''DB1,BYTE0'') = Inr ?item
      \<and> getWriteBuffer ex_methods ?item () = Inr [0]
      \<and> overheadPerItem + byteLengthWithFill ?item \<le> pduSize_number ?ep - 12"
    by (simp add: ex_group_def new_S7ItemGroup_def ex_endpoint_def isConnected_def map_get_def
        ex_item_def ex_methods_def overheadPerItem_def pduSize_number_def)
  from C10_write_frame [THEN conjunct2, rule_format, OF h, of 3 ex_connection 7 "[]"]
  have 1: "writeItems 3 ex_methods ex_connection 7 (One (TagString ''DB1,BYTE0'')) (One ()) ?g []
   = (Inr (), ?g\<lparr> lastRequestTime := Some 7 \<rparr>,
      [[\<lparr> area = area_DB, db = Some 1, transport = transport_BYTE, address = 0, length' = 1,
          syntax_id = syntax_S7ANY \<rparr>]])"
    by (simp add: writeVars_def ex_endpoint_def ex_connection_def write_request_def s7any_def
        ex_item_def retval_DATA_OK_def transport_BYTE_def transport_BIT_def js_shl3_def)
  from C10_write_frame [THEN conjunct1, rule_format, of 3 ex_methods ex_connection 7
      "One (TagString ''DB1,BYTE0'')" "One ()" ?g "[]"]
  have 2: "group_items (fst (snd (writeItems 3 ex_methods ex_connection 7
        (One (TagString ''DB1,BYTE0'')) (One ()) ?g [])))
      = [(''B'', ex_item ''B'' ''DB'' area_DB (Some 1) 1 1)]"
    by (simp add: ex_group_def ex_item_def)
  from 1 2 show ?thesis by blast
qed

end
